theory Spec2Isabelle
  imports Main "HOL-Library.Sublist"
begin

section \<open>JavaScript strings and numbers\<close>

text \<open>
  Tile coordinates and zoom levels are JavaScript numbers that hold integers (they come
  from \<open>Math.floor\<close> and from loop counters). They are modelled as \<open>int\<close>; for integers
  of magnitude below \<open>10^21\<close> the conversion \<open>Number.prototype.toString\<close> is the plain
  decimal numeral, which is what \<open>toString\<close> below computes.
\<close>

definition digit_char :: "nat \<Rightarrow> char" where
  "digit_char d = ''0123456789'' ! d"

function showNat :: "nat \<Rightarrow> string" where
  "showNat n = (if n < 10 then [digit_char n] else showNat (n div 10) @ [digit_char (n mod 10)])"
  by pat_completeness auto
termination
  by (relation "measure id") auto

definition toString :: "int \<Rightarrow> string" where
  "toString i = (if i < 0 then CHR ''-'' # showNat (nat (- i)) else showNat (nat i))"

text \<open>The remainder operator \<open>%\<close>: the result has the sign of the dividend.\<close>

definition js_rem :: "int \<Rightarrow> int \<Rightarrow> int" where
  "js_rem a b = sgn a * (\<bar>a\<bar> mod \<bar>b\<bar>)"

text \<open>\<open>String.prototype.indexOf\<close>: the first position at which the pattern occurs.\<close>

fun indexOf :: "string \<Rightarrow> string \<Rightarrow> nat option" where
  "indexOf p [] = (if p = [] then Some 0 else None)"
| "indexOf p (c # cs) =
     (if prefix p (c # cs) then Some 0 else map_option Suc (indexOf p cs))"

definition str_includes :: "string \<Rightarrow> string \<Rightarrow> bool" where
  "str_includes s p = (indexOf p s \<noteq> None)"

text \<open>
  \<open>GetSubstitution\<close> of ECMAScript for a string pattern (no capture groups): in the
  replacement text \<open>$$\<close> stands for a dollar sign, \<open>$&\<close> for the matched text, \<open>$`\<close> for
  the text before the match and \<open>$'\<close> for the text after it; every other character,
  also a dollar sign followed by a digit, is copied.
\<close>

fun getSubstitution :: "string \<Rightarrow> string \<Rightarrow> string \<Rightarrow> string \<Rightarrow> string" where
  "getSubstitution m pre post [] = []"
| "getSubstitution m pre post [c] = [c]"
| "getSubstitution m pre post (c # d # cs) =
     (if c = CHR ''$'' \<and> d = CHR ''$'' then CHR ''$'' # getSubstitution m pre post cs
      else if c = CHR ''$'' \<and> d = CHR ''&'' then m @ getSubstitution m pre post cs
      else if c = CHR ''$'' \<and> d = CHR 0x60 then pre @ getSubstitution m pre post cs
      else if c = CHR ''$'' \<and> d = CHR 0x27 then post @ getSubstitution m pre post cs
      else c # getSubstitution m pre post (d # cs))"

text \<open>
  \<open>String.prototype.replace\<close> with a string pattern: only the first occurrence of the
  pattern is replaced.
\<close>

definition js_replace :: "string \<Rightarrow> string \<Rightarrow> string \<Rightarrow> string" where
  "js_replace s p r =
     (case indexOf p s of
        None \<Rightarrow> s
      | Some i \<Rightarrow>
          (let pre = take i s; post = drop (i + length p) s
           in pre @ getSubstitution p pre post r @ post))"

text \<open>\<open>String.prototype.split\<close> with a one-character separator.\<close>

fun splitOn :: "char \<Rightarrow> string \<Rightarrow> string list" where
  "splitOn c [] = [[]]"
| "splitOn c (x # xs) =
     (if x = c then [] # splitOn c xs
      else (case splitOn c xs of [] \<Rightarrow> [[x]] | s # ss \<Rightarrow> (x # s) # ss))"

fun joinWith :: "char \<Rightarrow> string list \<Rightarrow> string" where
  "joinWith c [] = []"
| "joinWith c [s] = s"
| "joinWith c (s # t # ss) = s @ c # joinWith c (t # ss)"

section \<open>The path module\<close>

text \<open>
  \<open>path.join\<close> and \<open>path.normalize\<close> of Node.js (POSIX flavour). \<open>normalizeSegs\<close>
  is Node's \<open>normalizeString\<close> on the list of segments: empty segments and \<open>.\<close> are
  dropped, \<open>..\<close> removes the segment before it, and is kept only at the start of a
  relative path.
\<close>

fun normalizeSegs :: "bool \<Rightarrow> string list \<Rightarrow> string list \<Rightarrow> string list" where
  "normalizeSegs allowAboveRoot res [] = res"
| "normalizeSegs allowAboveRoot res (seg # segs) =
     (if seg = [] \<or> seg = ''.'' then normalizeSegs allowAboveRoot res segs
      else if seg = ''..'' then
        (if res \<noteq> [] \<and> last res \<noteq> ''..'' then normalizeSegs allowAboveRoot (butlast res) segs
         else if allowAboveRoot then normalizeSegs allowAboveRoot (res @ [''..'']) segs
         else normalizeSegs allowAboveRoot res segs)
      else normalizeSegs allowAboveRoot (res @ [seg]) segs)"

definition normalize :: "string \<Rightarrow> string" where
  "normalize p =
     (if p = [] then ''.''
      else
        (let isAbsolute = (hd p = CHR ''/'');
             trailingSeparator = (last p = CHR ''/'');
             path = joinWith CHR ''/'' (normalizeSegs (\<not> isAbsolute) [] (splitOn CHR ''/'' p))
         in if path = [] then
              (if isAbsolute then ''/'' else if trailingSeparator then ''./'' else ''.'')
            else (if isAbsolute then ''/'' else []) @ path
                   @ (if trailingSeparator then ''/'' else [])))"

definition path_join :: "string list \<Rightarrow> string" where
  "path_join args =
     (let joined = joinWith CHR ''/'' (filter (\<lambda>arg. arg \<noteq> []) args)
      in if joined = [] then ''.'' else normalize joined)"

section \<open>Configuration\<close>

record tileMapConfig =
  Name :: string
  Url :: string
  Subdomains :: "string option"
  Format :: string

record config =
  TileMaps :: "tileMapConfig list"
  TileCacheFolder :: string

datatype error = ConfigurationError string

text \<open>
  \<open>getTileMapByName\<close> throws \<open>Error('Tile map "name" not found in configuration')\<close>
  when no tile map has the name; the thrown error is the value \<open>ConfigurationError name\<close>.
\<close>

definition getTileMapByName :: "config \<Rightarrow> string \<Rightarrow> error + tileMapConfig" where
  "getTileMapByName cfg name =
     (case find (\<lambda>tm. Name tm = name) (TileMaps cfg) of
        None \<Rightarrow> Inl (ConfigurationError name)
      | Some tm \<Rightarrow> Inr tm)"

section \<open>Tile URL and tile path\<close>

text \<open>
  \<open>generateTileUrl\<close>; the extra argument \<open>rnd\<close> stands for the draw of \<open>Math.random\<close>
  and selects the subdomain. A missing or empty \<open>Subdomains\<close> entry is falsy.
\<close>

definition generateTileUrl :: "tileMapConfig \<Rightarrow> int \<Rightarrow> int \<Rightarrow> int \<Rightarrow> nat \<Rightarrow> string" where
  "generateTileUrl tm x y z rnd =
     (let url = Url tm;
          url = js_replace url ''{x}'' (toString x);
          url = js_replace url ''{y}'' (toString y);
          url = js_replace url ''{z}'' (toString z)
      in case Subdomains tm of
           None \<Rightarrow> url
         | Some subs \<Rightarrow>
             if subs \<noteq> [] \<and> str_includes url ''{s}'' then
               (let subdomains = splitOn CHR '','' subs;
                    subdomain = subdomains ! (rnd mod length subdomains)
                in js_replace url ''{s}'' subdomain)
             else url)"

function ve_loop :: "int \<Rightarrow> int \<Rightarrow> int \<Rightarrow> int \<Rightarrow> string \<Rightarrow> string" where
  "ve_loop i level xInd yInd builder =
     (if i \<le> level then
        (let c = (if js_rem xInd 2 = 1 then 1 else 0) + (if js_rem yInd 2 = 1 then 2 else 0)
         in ve_loop (i + 1) level (xInd div 2) (yInd div 2) (toString c @ builder))
      else builder)"
  by pat_completeness auto
termination
  by (relation "measure (\<lambda>(i, level, xInd, yInd, builder). nat (level + 1 - i))") auto

definition getMicrosoftVETile :: "int \<Rightarrow> int \<Rightarrow> int \<Rightarrow> string" where
  "getMicrosoftVETile level xIndex yIndex =
     (if level = 0 then ''_'' else ve_loop 1 level xIndex yIndex [])"

definition createTileLevelPath :: "int \<Rightarrow> int \<Rightarrow> int \<Rightarrow> string" where
  "createTileLevelPath level xIndex yIndex =
     (let tileLevelString = getMicrosoftVETile level xIndex yIndex
      in if tileLevelString = ''_'' then []
         else foldl (\<lambda>result c. path_join [result, [c]]) [] tileLevelString)"

definition padCoord :: "int \<Rightarrow> string" where
  "padCoord i =
     (if i < 100000000 \<and> i \<ge> 0 then
        (let tmp = toString i in replicate (8 - length tmp) CHR ''0'' @ tmp)
      else if i \<ge> 100000000 then ''99999999''
      else ''00000000'')"

definition getOutputTileName :: "string \<Rightarrow> int \<Rightarrow> int \<Rightarrow> int \<Rightarrow> string" where
  "getOutputTileName namePrefix level i j =
     namePrefix @ ''_''
       @ (if level < 100 \<and> level \<ge> 0 then
            (if level < 10 then ''0'' @ toString level else toString level)
          else if level \<ge> 100 then ''99''
          else ''00'')
       @ ''_'' @ padCoord i @ ''_'' @ padCoord j"

definition generateTilePath :: "config \<Rightarrow> string \<Rightarrow> int \<Rightarrow> int \<Rightarrow> int \<Rightarrow> string \<Rightarrow> string" where
  "generateTilePath cfg tileMapName x y z format =
     (let tileLevelPath = createTileLevelPath z x y;
          tileFileName = getOutputTileName tileMapName z x y
      in if tileLevelPath \<noteq> [] then
           path_join [TileCacheFolder cfg, tileMapName, tileLevelPath, tileFileName @ ''.'' @ format]
         else
           path_join [TileCacheFolder cfg, tileMapName, tileFileName @ ''.'' @ format])"

section \<open>Tile geometry\<close>

record tile =
  tile_x :: int
  tile_y :: int
  tile_z :: int

text \<open>
  The numeric and geometric collaborators. \<open>latLonToTile\<close> and \<open>tileToLatLonBounds\<close>
  are floating-point computations with \<open>Math.log\<close>, \<open>Math.tan\<close>, \<open>Math.atan\<close> and
  \<open>Math.sinh\<close>; \<open>turf.bbox\<close>, \<open>turf.feature\<close> and \<open>turf.booleanIntersects\<close> belong to
  the turf library. The tile enumeration takes them as parameters: \<open>'r\<close> is the type of
  coordinates in degrees, \<open>'f\<close> of GeoJSON features and \<open>'g\<close> of bare geometries. The
  projection is taken to return integer tile indices.
\<close>

record ('r, 'f, 'g) geolib =
  latLonToTile :: "'r \<Rightarrow> 'r \<Rightarrow> int \<Rightarrow> int \<times> int"
  tileToLatLonBounds :: "int \<Rightarrow> int \<Rightarrow> int \<Rightarrow> 'r \<times> 'r \<times> 'r \<times> 'r"
  turf_bbox :: "'f \<Rightarrow> 'r \<times> 'r \<times> 'r \<times> 'r"
  turf_feature :: "'g \<Rightarrow> 'f"
  turf_booleanIntersects :: "('r \<times> 'r) list \<Rightarrow> 'f \<Rightarrow> bool"

datatype ('f, 'g) geojson = FeatureCollection "'f list" | Feature 'f | Geometry 'g

definition calculateTilesForBoundingBox ::
  "('r, 'f, 'g) geolib \<Rightarrow> 'r \<times> 'r \<times> 'r \<times> 'r \<Rightarrow> int \<Rightarrow> int \<Rightarrow> tile list" where
  "calculateTilesForBoundingBox geo boundingBox minZoom maxZoom =
     (case boundingBox of (minLon, minLat, maxLon, maxLat) \<Rightarrow>
        concat (map (\<lambda>z.
          (let topLeft = latLonToTile geo maxLat minLon z;
               bottomRight = latLonToTile geo minLat maxLon z
           in concat (map (\<lambda>x.
                map (\<lambda>y. \<lparr>tile_x = x, tile_y = y, tile_z = z\<rparr>) [snd topLeft..snd bottomRight])
                [fst topLeft..fst bottomRight])))
          [minZoom..maxZoom]))"

definition tileIntersectsFeature ::
  "('r, 'f, 'g) geolib \<Rightarrow> int \<Rightarrow> int \<Rightarrow> int \<Rightarrow> 'f \<Rightarrow> bool" where
  "tileIntersectsFeature geo x y zoom feature =
     (case tileToLatLonBounds geo x y zoom of (west, south, east, north) \<Rightarrow>
        turf_booleanIntersects geo
          [(west, north), (east, north), (east, south), (west, south), (west, north)] feature)"

text \<open>
  The state of \<open>calculateTilesForGeoJSON\<close>: the \<open>Set\<close> of tile keys, the \<open>Map\<close> from
  tile key to tile (both in insertion order), and the calls made to
  \<open>tileIntersectsFeature\<close>, recorded as (feature index, x, y, zoom).
\<close>

record tilecalc =
  tileSet :: "string list"
  tileMap :: "(string \<times> tile) list"
  intersectionTests :: "(nat \<times> int \<times> int \<times> int) list"

definition set_add :: "string \<Rightarrow> string list \<Rightarrow> string list" where
  "set_add k ks = (if k \<in> set ks then ks else ks @ [k])"

definition map_set :: "string \<Rightarrow> tile \<Rightarrow> (string \<times> tile) list \<Rightarrow> (string \<times> tile) list" where
  "map_set k v m =
     (if k \<in> fst ` set m then map (\<lambda>(k', v'). if k' = k then (k', v) else (k', v')) m
      else m @ [(k, v)])"

definition tileKey :: "int \<Rightarrow> int \<Rightarrow> int \<Rightarrow> string" where
  "tileKey z x y = toString z @ ''/'' @ toString x @ ''/'' @ toString y"

definition visitTile ::
  "('r, 'f, 'g) geolib \<Rightarrow> bool \<Rightarrow> nat \<Rightarrow> 'f \<Rightarrow> int \<Rightarrow> int \<Rightarrow> int \<Rightarrow> tilecalc \<Rightarrow> tilecalc" where
  "visitTile geo skipIntersectionCheck featureIndex feature z x y st =
     (let key = tileKey z x y;
          added = st\<lparr>tileSet := set_add key (tileSet st),
                     tileMap := map_set key \<lparr>tile_x = x, tile_y = y, tile_z = z\<rparr> (tileMap st)\<rparr>
      in if key \<in> set (tileSet st) then st
         else if skipIntersectionCheck then added
         else
           (let tested = st\<lparr>intersectionTests := intersectionTests st @ [(featureIndex, x, y, z)]\<rparr>
            in if tileIntersectsFeature geo x y z feature then
                 added\<lparr>intersectionTests := intersectionTests tested\<rparr>
               else tested))"

definition potentialTileCount :: "int \<times> int \<Rightarrow> int \<times> int \<Rightarrow> int" where
  "potentialTileCount topLeft bottomRight =
     (fst bottomRight - fst topLeft + 1) * (snd bottomRight - snd topLeft + 1)"

definition processFeature ::
  "('r, 'f, 'g) geolib \<Rightarrow> int \<Rightarrow> nat \<times> 'f \<Rightarrow> tilecalc \<Rightarrow> tilecalc" where
  "processFeature geo z indexed st =
     (case indexed of (featureIndex, feature) \<Rightarrow>
        (case turf_bbox geo feature of (b0, b1, b2, b3) \<Rightarrow>
           (let topLeft = latLonToTile geo b3 b0 z;
                bottomRight = latLonToTile geo b1 b2 z;
                skipIntersectionCheck = (potentialTileCount topLeft bottomRight > 10000)
            in fold (\<lambda>x. fold (visitTile geo skipIntersectionCheck featureIndex feature z x)
                             [snd topLeft..snd bottomRight])
                    [fst topLeft..fst bottomRight] st)))"

definition featuresOf :: "('r, 'f, 'g) geolib \<Rightarrow> ('f, 'g) geojson \<Rightarrow> 'f list" where
  "featuresOf geo geojson =
     (case geojson of
        FeatureCollection fs \<Rightarrow> fs
      | Feature f \<Rightarrow> [f]
      | Geometry g \<Rightarrow> [turf_feature geo g])"

definition calculateTiles ::
  "('r, 'f, 'g) geolib \<Rightarrow> ('f, 'g) geojson \<Rightarrow> int \<Rightarrow> int \<Rightarrow> tilecalc" where
  "calculateTiles geo geojson minZoom maxZoom =
     (let features = featuresOf geo geojson
      in fold (\<lambda>z. fold (processFeature geo z) (zip [0..<length features] features))
              [minZoom..maxZoom]
              \<lparr>tileSet = [], tileMap = [], intersectionTests = []\<rparr>)"

definition calculateTilesForGeoJSON ::
  "('r, 'f, 'g) geolib \<Rightarrow> ('f, 'g) geojson \<Rightarrow> int \<Rightarrow> int \<Rightarrow> tile list" where
  "calculateTilesForGeoJSON geo geojson minZoom maxZoom =
     map snd (tileMap (calculateTiles geo geojson minZoom maxZoom))"

section \<open>The tile downloader\<close>

record stats =
  calculatedTiles :: int
  downloadedTiles :: int
  failedTiles :: int
  skippedTiles :: int
  inProgress :: int
  totalTiles :: int

record task =
  task_name :: string
  task_x :: int
  task_y :: int
  task_z :: int

text \<open>
  A call of \<open>downloadTile\<close> is suspended at one of four \<open>await\<close>s: \<open>fs.pathExists\<close>,
  \<open>fs.ensureDir\<close>, the HTTP request of \<open>axios\<close>, and \<open>fs.writeFile\<close>.
\<close>

datatype phase = PathExists | EnsureDir | HttpGet | WriteFile

record job =
  job_task :: task
  job_url :: string
  job_path :: string
  job_phase :: phase

text \<open>
  The downloader object together with what it acts on. \<open>queue\<close> and \<open>pending\<close> are the
  waiting and the started tasks of the \<open>PQueue\<close>, \<open>concurrency\<close> its limit;
  \<open>progressCallback\<close> tells whether a callback is registered and \<open>notified\<close> lists the
  statistics snapshots it was called with (the percentage, a rounded floating-point
  quotient, is left out); \<open>files\<close> are the paths of the files that exist, \<open>requests\<close>
  the URLs requested so far and \<open>rejected\<close> the errors of the tasks whose promise was
  rejected, which no caller of \<open>queue.add\<close> handles.
\<close>

record downloader =
  stats :: stats
  failedDownloads :: "task list"
  queue :: "task list"
  pending :: "job list"
  concurrency :: nat
  progressCallback :: bool
  notified :: "stats list"
  files :: "string set"
  requests :: "string list"
  rejected :: "error list"

definition zeroStats :: stats where
  "zeroStats = \<lparr>calculatedTiles = 0, downloadedTiles = 0, failedTiles = 0, skippedTiles = 0,
                 inProgress = 0, totalTiles = 0\<rparr>"

definition newTileDownloader :: "nat \<Rightarrow> string set \<Rightarrow> downloader" where
  "newTileDownloader conc fs =
     \<lparr>stats = zeroStats, failedDownloads = [], queue = [], pending = [], concurrency = conc,
      progressCallback = False, notified = [], files = fs, requests = [], rejected = []\<rparr>"

definition setProgressCallback :: "downloader \<Rightarrow> downloader" where
  "setProgressCallback s = s\<lparr>progressCallback := True\<rparr>"

definition resetStats :: "downloader \<Rightarrow> downloader" where
  "resetStats s = s\<lparr>stats := zeroStats, failedDownloads := []\<rparr>"

definition getStats :: "downloader \<Rightarrow> stats" where
  "getStats s = stats s"

definition updateProgress :: "downloader \<Rightarrow> downloader" where
  "updateProgress s =
     (if progressCallback s then s\<lparr>notified := notified s @ [getStats s]\<rparr> else s)"

text \<open>
  \<open>downloadTile\<close> up to its first \<open>await\<close>: the tile map is looked up (the error is
  thrown before the \<open>try\<close>), URL and path are built, and \<open>inProgress\<close> is incremented.
\<close>

definition downloadTile :: "config \<Rightarrow> nat \<Rightarrow> task \<Rightarrow> downloader \<Rightarrow> error + downloader" where
  "downloadTile cfg rnd t s =
     (case getTileMapByName cfg (task_name t) of
        Inl e \<Rightarrow> Inl e
      | Inr tm \<Rightarrow>
          (let url = generateTileUrl tm (task_x t) (task_y t) (task_z t) rnd;
               filePath = generateTilePath cfg (task_name t) (task_x t) (task_y t) (task_z t)
                            (Format tm)
           in Inr (s\<lparr>stats := (stats s)\<lparr>inProgress := inProgress (stats s) + 1\<rparr>,
                     pending := pending s @
                       [\<lparr>job_task = t, job_url = url, job_path = filePath,
                         job_phase = PathExists\<rparr>]\<rparr>)))"

definition removeJob :: "nat \<Rightarrow> downloader \<Rightarrow> downloader" where
  "removeJob i s = s\<lparr>pending := take i (pending s) @ drop (Suc i) (pending s)\<rparr>"

definition setPhase :: "nat \<Rightarrow> phase \<Rightarrow> downloader \<Rightarrow> downloader" where
  "setPhase i ph s = s\<lparr>pending := (pending s)[i := (pending s ! i)\<lparr>job_phase := ph\<rparr>]\<rparr>"

definition tileSkipped :: "nat \<Rightarrow> downloader \<Rightarrow> downloader" where
  "tileSkipped i s =
     removeJob i (updateProgress
       (s\<lparr>stats := (stats s)\<lparr>skippedTiles := skippedTiles (stats s) + 1,
                             inProgress := inProgress (stats s) - 1\<rparr>\<rparr>))"

definition tileDownloaded :: "nat \<Rightarrow> downloader \<Rightarrow> downloader" where
  "tileDownloaded i s =
     removeJob i (updateProgress
       (s\<lparr>stats := (stats s)\<lparr>downloadedTiles := downloadedTiles (stats s) + 1,
                             inProgress := inProgress (stats s) - 1\<rparr>\<rparr>))"

definition tileFailed :: "nat \<Rightarrow> downloader \<Rightarrow> downloader" where
  "tileFailed i s =
     removeJob i (updateProgress
       (s\<lparr>stats := (stats s)\<lparr>failedTiles := failedTiles (stats s) + 1,
                             inProgress := inProgress (stats s) - 1\<rparr>,
          failedDownloads := failedDownloads s @ [job_task (pending s ! i)]\<rparr>))"

text \<open>
  \<open>downloadTile\<close> resumed at the \<open>await\<close> of job \<open>i\<close>; \<open>ok\<close> tells whether the awaited
  promise was fulfilled. \<open>fs.pathExists\<close> never rejects: it answers whether the file
  exists.
\<close>

definition downloadTile_resume :: "nat \<Rightarrow> bool \<Rightarrow> downloader \<Rightarrow> downloader" where
  "downloadTile_resume i ok s =
     (let j = pending s ! i
      in case job_phase j of
           PathExists \<Rightarrow>
             if job_path j \<in> files s then tileSkipped i s else setPhase i EnsureDir s
         | EnsureDir \<Rightarrow>
             if ok then (setPhase i HttpGet s)\<lparr>requests := requests s @ [job_url j]\<rparr>
             else tileFailed i s
         | HttpGet \<Rightarrow> if ok then setPhase i WriteFile s else tileFailed i s
         | WriteFile \<Rightarrow>
             if ok then tileDownloaded i (s\<lparr>files := insert (job_path j) (files s)\<rparr>)
             else tileFailed i s)"

text \<open>
  What can happen while an operation waits for \<open>queue.onIdle()\<close>: the queue starts its
  next task when fewer than \<open>concurrency\<close> tasks are running (\<open>Start\<close>, with the draw
  of \<open>Math.random\<close>), or the promise a running task awaits is settled (\<open>Settle\<close>).
  An event that cannot happen in a state leaves the state as it is.
\<close>

datatype event = Start nat | Settle nat bool

fun step :: "config \<Rightarrow> event \<Rightarrow> downloader \<Rightarrow> downloader" where
  "step cfg (Start rnd) s =
     (case queue s of
        [] \<Rightarrow> s
      | t # q \<Rightarrow>
          if length (pending s) < concurrency s then
            (case downloadTile cfg rnd t (s\<lparr>queue := q\<rparr>) of
               Inl e \<Rightarrow> s\<lparr>queue := q, rejected := rejected s @ [e]\<rparr>
             | Inr s' \<Rightarrow> s')
          else s)"
| "step cfg (Settle i ok) s =
     (if i < length (pending s) then downloadTile_resume i ok s else s)"

definition run :: "config \<Rightarrow> event list \<Rightarrow> downloader \<Rightarrow> downloader" where
  "run cfg evs s = fold (step cfg) evs s"

definition idle :: "downloader \<Rightarrow> bool" where
  "idle s = (queue s = [] \<and> pending s = [])"

definition taskOf :: "string \<Rightarrow> tile \<Rightarrow> task" where
  "taskOf tileMapName t =
     \<lparr>task_name = tileMapName, task_x = tile_x t, task_y = tile_y t, task_z = tile_z t\<rparr>"

definition enqueueAll :: "task list \<Rightarrow> downloader \<Rightarrow> downloader" where
  "enqueueAll ts s = s\<lparr>queue := queue s @ ts\<rparr>"

definition setCalculated :: "nat \<Rightarrow> downloader \<Rightarrow> downloader" where
  "setCalculated n s =
     s\<lparr>stats := (stats s)\<lparr>calculatedTiles := int n, totalTiles := int n\<rparr>\<rparr>"

text \<open>
  The three operations up to their \<open>await this.queue.onIdle()\<close>, and \<open>operationResult\<close>
  for what each does once the queue is idle: a last progress update and the snapshot
  of the statistics that is returned.
\<close>

definition downloadTilesForBoundingBox ::
  "('r, 'f, 'g) geolib \<Rightarrow> string \<Rightarrow> 'r \<times> 'r \<times> 'r \<times> 'r \<Rightarrow> int \<Rightarrow> int \<Rightarrow> downloader
     \<Rightarrow> downloader" where
  "downloadTilesForBoundingBox geo tileMapName boundingBox minZoom maxZoom s =
     (let s = resetStats s;
          tiles = calculateTilesForBoundingBox geo boundingBox minZoom maxZoom;
          s = setCalculated (length tiles) s;
          s = updateProgress s
      in enqueueAll (map (taskOf tileMapName) tiles) s)"

definition downloadTilesForGeoJSON ::
  "('r, 'f, 'g) geolib \<Rightarrow> string \<Rightarrow> ('f, 'g) geojson \<Rightarrow> int \<Rightarrow> int \<Rightarrow> downloader
     \<Rightarrow> downloader" where
  "downloadTilesForGeoJSON geo tileMapName geojson minZoom maxZoom s =
     (let s = resetStats s;
          tiles = calculateTilesForGeoJSON geo geojson minZoom maxZoom;
          s = setCalculated (length tiles) s;
          s = updateProgress s
      in enqueueAll (map (taskOf tileMapName) tiles) s)"

text \<open>
  \<open>retryFailedDownloads\<close>: the first component is the value returned at once when there
  is nothing to retry, and \<open>None\<close> when the call goes on to wait for the queue.
\<close>

definition retryFailedDownloads :: "downloader \<Rightarrow> stats option \<times> downloader" where
  "retryFailedDownloads s =
     (if length (failedDownloads s) = 0 then (Some (getStats s), s)
      else
        (let s = resetStats s;
             failed = failedDownloads s;
             s = s\<lparr>failedDownloads := []\<rparr>;
             s = setCalculated (length failed) s;
             s = updateProgress s
         in (None, enqueueAll failed s)))"

definition operationResult :: "downloader \<Rightarrow> stats \<times> downloader" where
  "operationResult s = (let s = updateProgress s in (getStats s, s))"

definition completed :: "stats \<Rightarrow> int" where
  "completed st = downloadedTiles st + skippedTiles st + failedTiles st"

section \<open>Counting placeholders\<close>

text \<open>The number of positions of a string at which a pattern occurs.\<close>

fun occurrences :: "string \<Rightarrow> string \<Rightarrow> nat" where
  "occurrences p [] = 0"
| "occurrences p (c # cs) = (if prefix p (c # cs) then 1 else 0) + occurrences p cs"

definition placeholders :: "string set" where
  "placeholders = {''{x}'', ''{y}'', ''{z}'', ''{s}''}"

section \<open>Bookkeeping of the tile enumeration\<close>

text \<open>
  The \<open>Set\<close> and the \<open>Map\<close> of \<open>calculateTilesForGeoJSON\<close> hold the same keys,
  each key once, and every entry of the \<open>Map\<close> is stored under the key of its tile.
\<close>

definition keyed :: "tilecalc \<Rightarrow> bool" where
  "keyed st =
     (distinct (map fst (tileMap st)) \<and> set (tileSet st) = fst ` set (tileMap st)
      \<and> (\<forall>e \<in> set (tileMap st).
            fst e = tileKey (tile_z (snd e)) (tile_x (snd e)) (tile_y (snd e))))"

text \<open>
  A path segment that \<open>path.normalize\<close> keeps as it is: not empty, without separator,
  and neither \<open>.\<close> nor \<open>..\<close>.
\<close>

definition plain :: "string \<Rightarrow> bool" where
  "plain s = (s \<noteq> [] \<and> CHR ''/'' \<notin> set s \<and> s \<noteq> ''.'' \<and> s \<noteq> ''..'')"

section \<open>Invariants of a running operation\<close>

text \<open>
  \<open>accounted k n s\<close>: every tile of the operation is either counted as downloaded,
  skipped or failed, or in progress, or still queued, or was rejected; \<open>k\<close> rejections
  and \<open>n\<close> progress notifications are older than the operation, and every later
  notification carried statistics within the total.
\<close>

definition okStats :: "stats \<Rightarrow> bool" where
  "okStats st = (completed st + inProgress st \<le> totalTiles st)"

definition accounted :: "nat \<Rightarrow> nat \<Rightarrow> downloader \<Rightarrow> bool" where
  "accounted k n s =
     (inProgress (stats s) = int (length (pending s))
      \<and> completed (stats s) + inProgress (stats s) + int (length (queue s))
            + int (length (rejected s)) = totalTiles (stats s) + int k
      \<and> k \<le> length (rejected s)
      \<and> n \<le> length (notified s)
      \<and> (\<forall>st \<in> set (drop n (notified s)). okStats st))"

text \<open>
  The cache path of a task, when its tile map is configured. \<open>covered cfg ts s\<close>: each
  task of \<open>ts\<close> is queued, running or recorded as failed, or its tile map is unknown, or
  its file exists. \<open>cachedRun cfg F Q R s\<close>: the operation has found the file of every
  tile so far, and will: files, requests and rejections are still \<open>F\<close>, \<open>Q\<close> and \<open>R\<close>.
\<close>

definition taskPath :: "config \<Rightarrow> task \<Rightarrow> string option" where
  "taskPath cfg t =
     (case getTileMapByName cfg (task_name t) of
        Inl e \<Rightarrow> None
      | Inr tm \<Rightarrow>
          Some (generateTilePath cfg (task_name t) (task_x t) (task_y t) (task_z t) (Format tm)))"

definition covered :: "config \<Rightarrow> task list \<Rightarrow> downloader \<Rightarrow> bool" where
  "covered cfg ts s =
     ((\<forall>t \<in> set ts.
         t \<in> set (queue s) \<or> t \<in> job_task ` set (pending s) \<or> t \<in> set (failedDownloads s)
         \<or> taskPath cfg t = None \<or> (\<exists>p. taskPath cfg t = Some p \<and> p \<in> files s))
      \<and> (\<forall>j \<in> set (pending s). taskPath cfg (job_task j) = Some (job_path j))
      \<and> int (length (failedDownloads s)) = failedTiles (stats s))"

definition cachedRun :: "config \<Rightarrow> string set \<Rightarrow> string list \<Rightarrow> error list \<Rightarrow> downloader \<Rightarrow> bool" where
  "cachedRun cfg F Q R s =
     (files s = F \<and> requests s = Q \<and> rejected s = R
      \<and> downloadedTiles (stats s) = 0 \<and> failedTiles (stats s) = 0
      \<and> (\<forall>t \<in> set (queue s). \<exists>p. taskPath cfg t = Some p \<and> p \<in> F)
      \<and> (\<forall>j \<in> set (pending s). job_phase j = PathExists \<and> job_path j \<in> F))"

text \<open>
  \<open>unrejected cfg R s\<close>: the tile map of every queued task is configured, and the
  rejections are still \<open>R\<close>.
\<close>

definition unrejected :: "config \<Rightarrow> error list \<Rightarrow> downloader \<Rightarrow> bool" where
  "unrejected cfg R s = (rejected s = R \<and> (\<forall>t \<in> set (queue s). taskPath cfg t \<noteq> None))"

section \<open>Example inputs\<close>

text \<open>
  A configuration with one tile map, and stand-ins for the geometric collaborators in
  which degrees are tile indices: longitude is the column, latitude the negated row, a
  feature is its own bounding box, and every tile of the box intersects the feature.
\<close>

definition demo_cfg :: config where
  "demo_cfg =
     \<lparr>TileMaps = [\<lparr>Name = ''OSM'', Url = ''http://{s}.t.org/{z}/{x}/{y}.png'',
                   Subdomains = Some ''a,b'', Format = ''png''\<rparr>],
      TileCacheFolder = ''cache''\<rparr>"

definition demo_geo ::
  "(int, int \<times> int \<times> int \<times> int, int \<times> int \<times> int \<times> int) geolib" where
  "demo_geo =
     \<lparr>latLonToTile = (\<lambda>lat lon z. (lon, - lat)),
      tileToLatLonBounds = (\<lambda>x y z. (x, - y, x, - y)),
      turf_bbox = (\<lambda>f. f), turf_feature = (\<lambda>g. g),
      turf_booleanIntersects = (\<lambda>poly f. True)\<rparr>"

text \<open>
  A fresh downloader that has started to download the single tile (0, 0) of zoom 0;
  the same after the tile was fetched and written; and after its request failed.
\<close>

definition demo_start :: downloader where
  "demo_start =
     downloadTilesForBoundingBox demo_geo ''OSM'' (0, 0, 0, 0) 0 0 (newTileDownloader 5 {})"

definition demo_downloaded :: downloader where
  "demo_downloaded =
     run demo_cfg [Start 0, Settle 0 True, Settle 0 True, Settle 0 True, Settle 0 True]
       demo_start"

definition demo_failed :: downloader where
  "demo_failed =
     run demo_cfg [Start 0, Settle 0 True, Settle 0 True, Settle 0 False] demo_start"

text \<open>The failing download once more, watched by a progress callback.\<close>

definition demo_watched :: downloader where
  "demo_watched =
     run demo_cfg [Start 0, Settle 0 True, Settle 0 True, Settle 0 False]
       (downloadTilesForBoundingBox demo_geo ''OSM'' (0, 0, 0, 0) 0 0
          (setProgressCallback (newTileDownloader 5 {})))"

text \<open>The same download requested from a tile map that is not configured.\<close>

definition demo_unknown :: downloader where
  "demo_unknown =
     downloadTilesForBoundingBox demo_geo ''Nope'' (0, 0, 0, 0) 0 0 (newTileDownloader 5 {})"

text \<open>A download of two tiles from a tile map that is not configured.\<close>

definition demo_unknown_two :: downloader where
  "demo_unknown_two =
     downloadTilesForBoundingBox demo_geo ''Nope'' (0, 0, 1, 0) 0 0 (newTileDownloader 5 {})"

text \<open>A tile map whose URL template names the column twice.\<close>

definition demo_twice :: tileMapConfig where
  "demo_twice = \<lparr>Name = ''T'', Url = ''http://t/{z}/{x}/{y}?x={x}'', Subdomains = None, Format = ''png''\<rparr>"

text \<open>
  Two features that share the tile (1, 0), and one feature whose bounding box covers
  101 columns and 100 rows.
\<close>

definition demo_overlap :: "(int \<times> int \<times> int \<times> int, int \<times> int \<times> int \<times> int) geojson" where
  "demo_overlap = FeatureCollection [(0, 0, 1, 0), (1, 0, 2, 0)]"

definition demo_large :: "(int \<times> int \<times> int \<times> int, int \<times> int \<times> int \<times> int) geojson" where
  "demo_large = Feature (0, - 99, 100, 0)"

text \<open>The same download started again after the first one has fetched its tile.\<close>

definition demo_again :: downloader where
  "demo_again = downloadTilesForBoundingBox demo_geo ''OSM'' (0, 0, 0, 0) 0 0 demo_downloaded"

section \<open>Retrying failed downloads\<close>

text \<open>
  C1. After an operation that ended with failures, \<open>retryFailedDownloads\<close> should set
  \<open>totalTiles\<close> and \<open>calculatedTiles\<close> to the number of failed tasks and enqueue exactly
  those tasks. The code calls \<open>resetStats\<close> first, which empties \<open>failedDownloads\<close>
  before the list is copied: whenever there is something to retry, the call sets both
  counters to 0, enqueues nothing and forgets the failures.
\<close>

theorem retryFailedDownloads_forgets_failures:
  "failedDownloads s \<noteq> [] \<Longrightarrow>
     fst (retryFailedDownloads s) = None
     \<and> totalTiles (stats (snd (retryFailedDownloads s))) = 0
     \<and> calculatedTiles (stats (snd (retryFailedDownloads s))) = 0
     \<and> queue (snd (retryFailedDownloads s)) = queue s
     \<and> failedDownloads (snd (retryFailedDownloads s)) = []"
  by (simp add: retryFailedDownloads_def resetStats_def setCalculated_def updateProgress_def
      enqueueAll_def getStats_def Let_def)

theorem retryFailedDownloads_forgets_failures_witness:
  "failedDownloads demo_failed =
     [\<lparr>task_name = ''OSM'', task_x = 0, task_y = 0, task_z = 0\<rparr>]
   \<and> idle demo_failed
   \<and> fst (retryFailedDownloads demo_failed) = None
   \<and> totalTiles (stats (snd (retryFailedDownloads demo_failed))) = 0
   \<and> queue (snd (retryFailedDownloads demo_failed)) = []
   \<and> failedDownloads (snd (retryFailedDownloads demo_failed)) = []"
proof -
  have f: "failedDownloads demo_failed =
             [\<lparr>task_name = ''OSM'', task_x = 0, task_y = 0, task_z = 0\<rparr>]"
    by code_simp
  have q: "idle demo_failed"
    by code_simp
  from f have ne: "failedDownloads demo_failed \<noteq> []"
    by simp
  from q have q': "queue demo_failed = []"
    by (simp add: idle_def)
  show ?thesis
    using retryFailedDownloads_forgets_failures [OF ne] f q q' by simp
qed

text \<open>
  C2, as the code has it. With an empty failure list \<open>retryFailedDownloads\<close> returns the
  current statistics, whatever they are, and changes nothing: no task is enqueued and
  no counter moves. The statistics returned are all zero when they were all zero before
  the call, as on a fresh downloader.
\<close>

theorem retryFailedDownloads_nothing_to_retry:
  "failedDownloads s = [] \<Longrightarrow> retryFailedDownloads s = (Some (stats s), s)"
  by (simp add: retryFailedDownloads_def getStats_def)

theorem retryFailedDownloads_nothing_to_retry_witness:
  "failedDownloads (newTileDownloader 5 {}) = []
   \<and> retryFailedDownloads (newTileDownloader 5 {}) = (Some zeroStats, newTileDownloader 5 {})"
  using retryFailedDownloads_nothing_to_retry [of "newTileDownloader 5 {}"]
  by (simp add: newTileDownloader_def)

text \<open>
  After a download in which no tile failed the failure list is empty and the
  statistics are not zero: the retry returns them as they are.
\<close>

theorem retryFailedDownloads_not_zeroed:
  "failedDownloads demo_downloaded = [] \<and> idle demo_downloaded
   \<and> fst (retryFailedDownloads demo_downloaded)
       = Some \<lparr>calculatedTiles = 1, downloadedTiles = 1, failedTiles = 0, skippedTiles = 0,
               inProgress = 0, totalTiles = 1\<rparr>"
  by code_simp

section \<open>Unknown tile maps\<close>

text \<open>
  What a run does never depends on the rejections recorded so far: two states that
  differ in them only stay so under every event.
\<close>

lemma resume_ignores_rejected:
  "downloadTile_resume i ok (s\<lparr>rejected := R\<rparr>) = (downloadTile_resume i ok s)\<lparr>rejected := R\<rparr>"
  by (cases "job_phase (pending s ! i)")
     (simp_all add: downloadTile_resume_def Let_def tileSkipped_def tileDownloaded_def
        tileFailed_def setPhase_def removeJob_def updateProgress_def getStats_def)

lemma step_ignores_rejected:
  "(step cfg e (s\<lparr>rejected := R\<rparr>))\<lparr>rejected := X\<rparr> = (step cfg e s)\<lparr>rejected := X\<rparr>"
proof (cases e)
  case (Start rnd)
  show ?thesis
  proof (cases "queue s")
    case Nil
    with Start show ?thesis by simp
  next
    case (Cons t q)
    then show ?thesis
      using Start
      by (cases "getTileMapByName cfg (task_name t)")
         (simp_all add: downloadTile_def Let_def)
  qed
next
  case (Settle i ok)
  then show ?thesis
    by (simp add: resume_ignores_rejected)
qed

lemma step_same_but_rejected:
  assumes "a\<lparr>rejected := []\<rparr> = b\<lparr>rejected := []\<rparr>"
  shows "(step cfg e a)\<lparr>rejected := []\<rparr> = (step cfg e b)\<lparr>rejected := []\<rparr>"
proof -
  have "(b\<lparr>rejected := []\<rparr>)\<lparr>rejected := rejected b\<rparr>
      = (a\<lparr>rejected := []\<rparr>)\<lparr>rejected := rejected b\<rparr>"
    by (simp only: assms)
  then have "b = a\<lparr>rejected := rejected b\<rparr>"
    by simp
  then have "step cfg e b = step cfg e (a\<lparr>rejected := rejected b\<rparr>)"
    by (rule arg_cong)
  then show ?thesis
    by (simp only: step_ignores_rejected)
qed

lemma run_same_but_rejected:
  "a\<lparr>rejected := []\<rparr> = b\<lparr>rejected := []\<rparr> \<Longrightarrow>
     (run cfg evs a)\<lparr>rejected := []\<rparr> = (run cfg evs b)\<lparr>rejected := []\<rparr>"
  unfolding run_def
proof (induction evs arbitrary: a b)
  case Nil
  then show ?case by simp
next
  case (Cons e evs)
  from Cons.IH [OF step_same_but_rejected [OF Cons.prems]] show ?case
    by simp
qed

text \<open>
  C8, as the code has it. When the tile map of a task is not in the configuration,
  \<open>downloadTile\<close> raises the configuration error at once, before any access to files or
  network. The start of that task changes no statistics counter, appends nothing to
  the failure list, notifies no progress, touches no file and sends no request. The
  error is not fatal to the operation: it rejects the promise of the queue's task, which
  no operation looks at, the other tasks stay queued, and from there on the operation
  runs, and returns its statistics, exactly as if the task had not been queued.
\<close>

theorem downloadTile_unknown_tile_map:
  assumes "\<forall>tm \<in> set (TileMaps cfg). Name tm \<noteq> task_name t"
  shows "downloadTile cfg rnd t s = Inl (ConfigurationError (task_name t))
    \<and> (queue s = t # q \<and> length (pending s) < concurrency s \<longrightarrow>
         stats (step cfg (Start rnd) s) = stats s
         \<and> failedDownloads (step cfg (Start rnd) s) = failedDownloads s
         \<and> notified (step cfg (Start rnd) s) = notified s
         \<and> files (step cfg (Start rnd) s) = files s
         \<and> requests (step cfg (Start rnd) s) = requests s
         \<and> pending (step cfg (Start rnd) s) = pending s
         \<and> queue (step cfg (Start rnd) s) = q
         \<and> rejected (step cfg (Start rnd) s)
             = rejected s @ [ConfigurationError (task_name t)]
         \<and> stats (run cfg evs (step cfg (Start rnd) s)) = stats (run cfg evs (s\<lparr>queue := q\<rparr>))
         \<and> failedDownloads (run cfg evs (step cfg (Start rnd) s))
             = failedDownloads (run cfg evs (s\<lparr>queue := q\<rparr>))
         \<and> queue (run cfg evs (step cfg (Start rnd) s)) = queue (run cfg evs (s\<lparr>queue := q\<rparr>))
         \<and> pending (run cfg evs (step cfg (Start rnd) s))
             = pending (run cfg evs (s\<lparr>queue := q\<rparr>))
         \<and> files (run cfg evs (step cfg (Start rnd) s)) = files (run cfg evs (s\<lparr>queue := q\<rparr>))
         \<and> requests (run cfg evs (step cfg (Start rnd) s))
             = requests (run cfg evs (s\<lparr>queue := q\<rparr>))
         \<and> fst (operationResult (run cfg evs (step cfg (Start rnd) s)))
             = fst (operationResult (run cfg evs (s\<lparr>queue := q\<rparr>))))"
proof -
  from assms have "find (\<lambda>tm. Name tm = task_name t) (TileMaps cfg) = None"
    by (simp add: find_None_iff)
  then have dt: "downloadTile cfg rnd t s' = Inl (ConfigurationError (task_name t))" for s'
    by (simp add: downloadTile_def getTileMapByName_def)
  have later: "(run cfg evs (step cfg (Start rnd) s))\<lparr>rejected := []\<rparr>
      = (run cfg evs (s\<lparr>queue := q\<rparr>))\<lparr>rejected := []\<rparr>"
    if "queue s = t # q" "length (pending s) < concurrency s"
  proof -
    have "step cfg (Start rnd) s
        = (s\<lparr>queue := q\<rparr>)\<lparr>rejected := rejected s @ [ConfigurationError (task_name t)]\<rparr>"
      using that dt by simp
    then have "(step cfg (Start rnd) s)\<lparr>rejected := []\<rparr> = (s\<lparr>queue := q\<rparr>)\<lparr>rejected := []\<rparr>"
      by simp
    then show ?thesis
      by (rule run_same_but_rejected)
  qed
  have fields: "stats a = stats b \<and> failedDownloads a = failedDownloads b \<and> queue a = queue b
      \<and> pending a = pending b \<and> files a = files b \<and> requests a = requests b
      \<and> fst (operationResult a) = fst (operationResult b)"
    if "a\<lparr>rejected := []\<rparr> = b\<lparr>rejected := []\<rparr>" for a b :: downloader
  proof -
    have "stats (a\<lparr>rejected := []\<rparr>) = stats (b\<lparr>rejected := []\<rparr>)"
      "failedDownloads (a\<lparr>rejected := []\<rparr>) = failedDownloads (b\<lparr>rejected := []\<rparr>)"
      "queue (a\<lparr>rejected := []\<rparr>) = queue (b\<lparr>rejected := []\<rparr>)"
      "pending (a\<lparr>rejected := []\<rparr>) = pending (b\<lparr>rejected := []\<rparr>)"
      "files (a\<lparr>rejected := []\<rparr>) = files (b\<lparr>rejected := []\<rparr>)"
      "requests (a\<lparr>rejected := []\<rparr>) = requests (b\<lparr>rejected := []\<rparr>)"
      by (simp_all only: that)
    then show ?thesis
      by (simp add: operationResult_def updateProgress_def getStats_def Let_def)
  qed
  show ?thesis
    using dt fields [OF later] by simp
qed

theorem downloadTile_unknown_tile_map_witness:
  "map Name (TileMaps demo_cfg) = [''OSM'']
   \<and> queue demo_unknown = [\<lparr>task_name = ''Nope'', task_x = 0, task_y = 0, task_z = 0\<rparr>]
   \<and> length (pending demo_unknown) < concurrency demo_unknown
   \<and> downloadTile demo_cfg 0 \<lparr>task_name = ''Nope'', task_x = 0, task_y = 0, task_z = 0\<rparr>
        demo_unknown = Inl (ConfigurationError ''Nope'')
   \<and> stats (step demo_cfg (Start 0) demo_unknown) = stats demo_unknown
   \<and> failedDownloads (step demo_cfg (Start 0) demo_unknown) = []
   \<and> rejected (step demo_cfg (Start 0) demo_unknown) = [ConfigurationError ''Nope'']
   \<and> fst (operationResult (run demo_cfg [] (step demo_cfg (Start 0) demo_unknown)))
       = fst (operationResult (run demo_cfg [] (demo_unknown\<lparr>queue := []\<rparr>)))"
proof -
  let ?t = "\<lparr>task_name = ''Nope'', task_x = 0, task_y = 0, task_z = 0\<rparr>"
  have a: "\<forall>tm \<in> set (TileMaps demo_cfg). Name tm \<noteq> task_name ?t"
    by (simp add: demo_cfg_def)
  have q: "queue demo_unknown = [?t]"
    by code_simp
  have p: "length (pending demo_unknown) < concurrency demo_unknown"
    by code_simp
  have f: "failedDownloads demo_unknown = []"
    by code_simp
  have r: "rejected demo_unknown = []"
    by code_simp
  have n: "map Name (TileMaps demo_cfg) = [''OSM'']"
    by (simp add: demo_cfg_def)
  show ?thesis
    using downloadTile_unknown_tile_map [OF a, where rnd = 0 and s = demo_unknown
        and q = "[]" and evs = "[]"] n q p f r
    by simp
qed

text \<open>
  A download of two tiles from an unknown tile map: after the first task has raised the
  error the second is still started, the queue drains, and the operation returns its
  statistics like any other.
\<close>

theorem unknown_tile_map_not_fatal:
  "queue demo_unknown_two
     = [\<lparr>task_name = ''Nope'', task_x = 0, task_y = 0, task_z = 0\<rparr>,
        \<lparr>task_name = ''Nope'', task_x = 1, task_y = 0, task_z = 0\<rparr>]
   \<and> rejected (run demo_cfg [Start 0] demo_unknown_two) = [ConfigurationError ''Nope'']
   \<and> queue (run demo_cfg [Start 0] demo_unknown_two)
       = [\<lparr>task_name = ''Nope'', task_x = 1, task_y = 0, task_z = 0\<rparr>]
   \<and> rejected (run demo_cfg [Start 0, Start 0] demo_unknown_two)
       = [ConfigurationError ''Nope'', ConfigurationError ''Nope'']
   \<and> idle (run demo_cfg [Start 0, Start 0] demo_unknown_two)
   \<and> fst (operationResult (run demo_cfg [Start 0, Start 0] demo_unknown_two))
       = \<lparr>calculatedTiles = 2, downloadedTiles = 0, failedTiles = 0, skippedTiles = 0,
          inProgress = 0, totalTiles = 2\<rparr>"
  by code_simp

section \<open>URL templates\<close>

lemma occurrences_append_ge:
  "occurrences p a + occurrences p b \<le> occurrences p (a @ b)"
proof (induction a)
  case Nil
  show ?case by simp
next
  case (Cons c cs)
  have "prefix p (c # cs) \<Longrightarrow> prefix p (c # cs @ b)"
    using prefix_prefix [of p "c # cs" b] by simp
  with Cons show ?case by auto
qed

lemma placeholder_shape:
  "p \<in> placeholders \<Longrightarrow> \<exists>a. p = [CHR ''{'', a, CHR ''}''] \<and> a \<noteq> CHR ''{'' \<and> a \<noteq> CHR ''}''"
  by (auto simp: placeholders_def)

lemma prefix_placeholder_inside:
  assumes "p \<in> placeholders" "q \<in> placeholders" "prefix p (c # pre @ q @ post)"
  shows "prefix p (c # pre)"
proof -
  obtain a where p: "p = [CHR ''{'', a, CHR ''}'']" "a \<noteq> CHR ''{''"
    using placeholder_shape [OF assms(1)] by blast
  obtain b where q: "q = [CHR ''{'', b, CHR ''}'']"
    using placeholder_shape [OF assms(2)] by blast
  show ?thesis
  proof (cases pre)
    case Nil
    with assms(3) p q show ?thesis by simp
  next
    case (Cons d pre')
    with assms(3) p q show ?thesis by (cases pre') auto
  qed
qed

lemma occurrences_placeholder_le:
  assumes "p \<in> placeholders" "q \<in> placeholders"
  shows "occurrences p (pre @ q @ post)
           \<le> occurrences p pre + occurrences p post + (if p = q then 1 else 0)"
proof (induction pre)
  case Nil
  obtain a where p: "p = [CHR ''{'', a, CHR ''}'']" "a \<noteq> CHR ''{''" "a \<noteq> CHR ''}''"
    using placeholder_shape [OF assms(1)] by blast
  obtain b where q: "q = [CHR ''{'', b, CHR ''}'']" "b \<noteq> CHR ''{''" "b \<noteq> CHR ''}''"
    using placeholder_shape [OF assms(2)] by blast
  show ?case using p q by auto
next
  case (Cons c pre)
  have "prefix p (c # pre @ q @ post) \<Longrightarrow> prefix p (c # pre)"
    using prefix_placeholder_inside [OF assms] by blast
  with Cons show ?case by auto
qed

lemma indexOf_split:
  "indexOf p s = Some i \<Longrightarrow> s = take i s @ p @ drop (i + length p) s"
proof (induction s arbitrary: i)
  case Nil
  then show ?case by (simp split: if_splits)
next
  case (Cons c cs)
  show ?case
  proof (cases "prefix p (c # cs)")
    case True
    with Cons.prems have "i = 0" by simp
    with True show ?thesis by (auto simp: prefix_def)
  next
    case False
    with Cons.prems obtain j where j: "indexOf p cs = Some j" "i = Suc j" by auto
    from Cons.IH [OF j(1)] j(2) show ?thesis by simp
  qed
qed

lemma occurrences_js_replace:
  assumes "p \<in> placeholders" "q \<in> placeholders"
  shows "occurrences p s \<le> occurrences p (js_replace s q r) + (if p = q then 1 else 0)"
proof (cases "indexOf q s")
  case None
  then show ?thesis by (simp add: js_replace_def)
next
  case (Some i)
  let ?pre = "take i s" and ?post = "drop (i + length q) s"
  let ?sub = "getSubstitution q ?pre ?post r"
  from indexOf_split [OF Some] have "occurrences p s = occurrences p (?pre @ q @ ?post)"
    by simp
  also have "\<dots> \<le> occurrences p ?pre + occurrences p ?post + (if p = q then 1 else 0)"
    by (rule occurrences_placeholder_le [OF assms])
  also have "occurrences p ?pre + occurrences p ?post \<le> occurrences p (?pre @ ?sub @ ?post)"
    using occurrences_append_ge [of p ?pre "?sub @ ?post"] occurrences_append_ge [of p ?sub ?post]
    by linarith
  finally show ?thesis using Some by (simp add: js_replace_def Let_def)
qed

text \<open>
  C10. \<open>generateTileUrl\<close> substitutes at most the first occurrence of each of the
  placeholders: for every template and each placeholder, the returned URL has at most
  one occurrence fewer than the template. The example has the column placeholder twice;
  its second occurrence is still in the returned URL.
\<close>

theorem generateTileUrl_first_occurrence_only:
  assumes "p \<in> placeholders"
  shows "occurrences p (Url tm) \<le> occurrences p (generateTileUrl tm x y z rnd) + 1"
proof -
  define u1 where "u1 = js_replace (Url tm) ''{x}'' (toString x)"
  define u2 where "u2 = js_replace u1 ''{y}'' (toString y)"
  define u3 where "u3 = js_replace u2 ''{z}'' (toString z)"
  have px: "''{x}'' \<in> placeholders" and py: "''{y}'' \<in> placeholders"
    and pz: "''{z}'' \<in> placeholders" and ps: "''{s}'' \<in> placeholders"
    by (simp_all add: placeholders_def)
  have 1: "occurrences p (Url tm) \<le> occurrences p u1 + (if p = ''{x}'' then 1 else 0)"
    unfolding u1_def by (rule occurrences_js_replace [OF assms px])
  have 2: "occurrences p u1 \<le> occurrences p u2 + (if p = ''{y}'' then 1 else 0)"
    unfolding u2_def by (rule occurrences_js_replace [OF assms py])
  have 3: "occurrences p u2 \<le> occurrences p u3 + (if p = ''{z}'' then 1 else 0)"
    unfolding u3_def by (rule occurrences_js_replace [OF assms pz])
  have 4: "occurrences p u3 \<le> occurrences p (js_replace u3 ''{s}'' sd) + (if p = ''{s}'' then 1 else 0)" for sd
    by (rule occurrences_js_replace [OF assms ps])
  have 5: "occurrences p u3 \<le> occurrences p (generateTileUrl tm x y z rnd) + (if p = ''{s}'' then 1 else 0)"
    using 4 by (auto simp: generateTileUrl_def Let_def u1_def u2_def u3_def split: option.splits)
  from assms consider "p = ''{x}''" | "p = ''{y}''" | "p = ''{z}''" | "p = ''{s}''"
    by (auto simp: placeholders_def)
  then show ?thesis
    using 1 2 3 5 by cases simp_all
qed

theorem generateTileUrl_first_occurrence_only_witness:
  "''{x}'' \<in> placeholders
   \<and> occurrences ''{x}'' (Url demo_twice) = 2
   \<and> generateTileUrl demo_twice 1 2 3 0 = ''http://t/3/1/2?x={x}''
   \<and> occurrences ''{x}'' (Url demo_twice) \<le> occurrences ''{x}'' (generateTileUrl demo_twice 1 2 3 0) + 1"
proof -
  have a: "''{x}'' \<in> placeholders" by (simp add: placeholders_def)
  have b: "occurrences ''{x}'' (Url demo_twice) = 2" by code_simp
  have c: "generateTileUrl demo_twice 1 2 3 0 = ''http://t/3/1/2?x={x}''" by code_simp
  show ?thesis
    using generateTileUrl_first_occurrence_only [OF a, of demo_twice 1 2 3 0] a b c by simp
qed

section \<open>Decimal numerals and tile keys\<close>

declare showNat.simps [simp del]

lemma digit_cases:
  "d < 10 \<Longrightarrow> d = 0 \<or> d = 1 \<or> d = 2 \<or> d = 3 \<or> d = 4 \<or> d = 5 \<or> d = 6 \<or> d = 7 \<or> d = 8 \<or> d = (9::nat)"
  by arith

lemma digit_char_in_digits:
  "d < 10 \<Longrightarrow> digit_char d \<in> set ''0123456789''"
  using digit_cases [of d] by (auto simp: digit_char_def)

lemma digit_char_inj:
  assumes "d < 10" "e < 10" "digit_char d = digit_char e"
  shows "d = e"
  using digit_cases [OF assms(1)] digit_cases [OF assms(2)] assms(3)
  by (elim disjE) (simp_all add: digit_char_def)

lemma showNat_nonempty: "showNat n \<noteq> []"
  by (subst showNat.simps) simp

lemma showNat_digits: "set (showNat n) \<subseteq> set ''0123456789''"
proof (induction n rule: showNat.induct)
  case (1 n)
  show ?case
  proof (cases "n < 10")
    case True
    then show ?thesis
      using digit_char_in_digits [of n] by (subst showNat.simps) simp
  next
    case False
    have "n mod 10 < 10" by simp
    then have "digit_char (n mod 10) \<in> set ''0123456789''"
      by (rule digit_char_in_digits)
    with False "1.IH" show ?thesis
      by (subst showNat.simps) simp
  qed
qed

lemma showNat_inj: "showNat n = showNat m \<Longrightarrow> n = m"
proof (induction n arbitrary: m rule: showNat.induct)
  case (1 n)
  show ?case
  proof (cases "n < 10")
    case n: True
    show ?thesis
    proof (cases "m < 10")
      case True
      with n "1.prems" have "digit_char n = digit_char m"
        by (simp add: showNat.simps [of n] showNat.simps [of m])
      with n True show ?thesis by (rule digit_char_inj)
    next
      case False
      with n "1.prems" have "showNat (m div 10) = []"
        by (simp add: showNat.simps [of n] showNat.simps [of m] Cons_eq_append_conv)
      with showNat_nonempty show ?thesis by blast
    qed
  next
    case n: False
    show ?thesis
    proof (cases "m < 10")
      case True
      with n "1.prems" have "showNat (n div 10) = []"
        by (simp add: showNat.simps [of n] showNat.simps [of m] append_eq_Cons_conv)
      with showNat_nonempty show ?thesis by blast
    next
      case False
      with n "1.prems" have e: "showNat (n div 10) = showNat (m div 10)"
        and d: "digit_char (n mod 10) = digit_char (m mod 10)"
        by (simp_all add: showNat.simps [of n] showNat.simps [of m])
      from "1.IH" [OF n e] have "n div 10 = m div 10" .
      moreover have "n mod 10 = m mod 10"
        by (rule digit_char_inj [OF _ _ d]) simp_all
      ultimately show ?thesis
        by (metis div_mult_mod_eq)
    qed
  qed
qed

lemma toString_no_slash: "CHR ''/'' \<notin> set (toString i)"
  using showNat_digits [of "nat i"] showNat_digits [of "nat (- i)"]
  by (auto simp: toString_def)

lemma toString_inj: "toString i = toString j \<Longrightarrow> i = j"
proof -
  assume eq: "toString i = toString j"
  have nm: "hd (showNat n) \<noteq> CHR ''-''" for n
    using showNat_digits [of n] showNat_nonempty [of n] by (cases "showNat n") auto
  show ?thesis
  proof (cases "i < 0")
    case i: True
    show ?thesis
    proof (cases "j < 0")
      case True
      with i eq have "showNat (nat (- i)) = showNat (nat (- j))" by (simp add: toString_def)
      then have "nat (- i) = nat (- j)" by (rule showNat_inj)
      with i True show ?thesis by simp
    next
      case False
      with i eq have "CHR ''-'' # showNat (nat (- i)) = showNat (nat j)" by (simp add: toString_def)
      then have "hd (showNat (nat j)) = CHR ''-''" by (metis list.sel(1))
      with nm show ?thesis by blast
    qed
  next
    case i: False
    show ?thesis
    proof (cases "j < 0")
      case True
      with i eq have "CHR ''-'' # showNat (nat (- j)) = showNat (nat i)" by (simp add: toString_def)
      then have "hd (showNat (nat i)) = CHR ''-''" by (metis list.sel(1))
      with nm show ?thesis by blast
    next
      case False
      with i eq have "showNat (nat i) = showNat (nat j)" by (simp add: toString_def)
      then have "nat i = nat j" by (rule showNat_inj)
      with i False show ?thesis by simp
    qed
  qed
qed

lemma sep_unique:
  assumes "a @ c # r = a' @ c # r'" "c \<notin> set a" "c \<notin> set a'"
  shows "a = a' \<and> r = r'"
  using assms
proof (induction a arbitrary: a')
  case Nil
  then show ?case by (cases a') auto
next
  case (Cons x a)
  then show ?case by (cases a') auto
qed

lemma tileKey_inj:
  assumes "tileKey z x y = tileKey z' x' y'"
  shows "z = z' \<and> x = x' \<and> y = y'"
proof -
  from assms have 1: "toString z @ CHR ''/'' # (toString x @ CHR ''/'' # toString y)
      = toString z' @ CHR ''/'' # (toString x' @ CHR ''/'' # toString y')"
    by (simp add: tileKey_def)
  from sep_unique [OF 1 toString_no_slash toString_no_slash]
  have z: "toString z = toString z'"
    and 2: "toString x @ CHR ''/'' # toString y = toString x' @ CHR ''/'' # toString y'"
    by simp_all
  from sep_unique [OF 2 toString_no_slash toString_no_slash]
  have "toString x = toString x'" "toString y = toString y'" by simp_all
  with z show ?thesis by (simp add: toString_inj)
qed

section \<open>Tiles of a GeoJSON object\<close>

lemma keyed_tests_update [simp]: "keyed (st\<lparr>intersectionTests := ts\<rparr>) = keyed st"
  by (simp add: keyed_def)

lemma keyed_added:
  assumes "keyed st" "tileKey z x y \<notin> set (tileSet st)"
  shows "keyed (st\<lparr>tileSet := set_add (tileKey z x y) (tileSet st),
     tileMap := map_set (tileKey z x y) \<lparr>tile_x = x, tile_y = y, tile_z = z\<rparr> (tileMap st)\<rparr>)"
proof -
  from assms have nk: "tileKey z x y \<notin> fst ` set (tileMap st)"
    by (simp add: keyed_def)
  have m: "map_set (tileKey z x y) \<lparr>tile_x = x, tile_y = y, tile_z = z\<rparr> (tileMap st)
      = tileMap st @ [(tileKey z x y, \<lparr>tile_x = x, tile_y = y, tile_z = z\<rparr>)]"
    using nk by (simp add: map_set_def)
  have s: "set_add (tileKey z x y) (tileSet st) = tileSet st @ [tileKey z x y]"
    using assms(2) by (simp add: set_add_def)
  show ?thesis
    using assms nk unfolding m s by (simp add: keyed_def)
qed

lemma visitTile_keyed:
  assumes "keyed st"
  shows "keyed (visitTile geo skip i f z x y st)
    \<and> set (tileMap st) \<subseteq> set (tileMap (visitTile geo skip i f z x y st))"
proof (cases "tileKey z x y \<in> set (tileSet st)")
  case True
  with assms show ?thesis by (simp add: visitTile_def Let_def)
next
  case False
  with assms have nk: "tileKey z x y \<notin> fst ` set (tileMap st)"
    by (simp add: keyed_def)
  have m: "map_set (tileKey z x y) \<lparr>tile_x = x, tile_y = y, tile_z = z\<rparr> (tileMap st)
      = tileMap st @ [(tileKey z x y, \<lparr>tile_x = x, tile_y = y, tile_z = z\<rparr>)]"
    using nk by (simp add: map_set_def)
  have k: "keyed (st\<lparr>tileSet := set_add (tileKey z x y) (tileSet st),
     tileMap := map_set (tileKey z x y) \<lparr>tile_x = x, tile_y = y, tile_z = z\<rparr> (tileMap st)\<rparr>)"
    by (rule keyed_added [OF assms False])
  show ?thesis
    using False k assms unfolding visitTile_def Let_def by (auto simp: m)
qed

lemma visitTile_adds:
  assumes "keyed st"
  shows "\<lparr>tile_x = x, tile_y = y, tile_z = z\<rparr> \<in> snd ` set (tileMap (visitTile geo True i f z x y st))"
proof (cases "tileKey z x y \<in> set (tileSet st)")
  case True
  with assms obtain e where e: "e \<in> set (tileMap st)" "fst e = tileKey z x y"
    by (auto simp: keyed_def)
  with assms have "tileKey (tile_z (snd e)) (tile_x (snd e)) (tile_y (snd e)) = tileKey z x y"
    by (auto simp: keyed_def)
  from tileKey_inj [OF this] have "snd e = \<lparr>tile_x = x, tile_y = y, tile_z = z\<rparr>"
    by (intro tile.equality) simp_all
  with e(1) have "\<lparr>tile_x = x, tile_y = y, tile_z = z\<rparr> \<in> snd ` set (tileMap st)"
    by (metis imageI)
  with True show ?thesis
    by (simp add: visitTile_def Let_def)
next
  case False
  with assms have nk: "tileKey z x y \<notin> fst ` set (tileMap st)"
    by (simp add: keyed_def)
  then show ?thesis
    using False by (simp add: visitTile_def Let_def map_set_def)
qed

lemma visitTile_tests:
  "set (intersectionTests (visitTile geo skip i f z x y st))
     \<subseteq> set (intersectionTests st) \<union> (if skip then {} else {(i, x, y, z)})"
  by (auto simp: visitTile_def Let_def)

lemma fold_grows:
  assumes step: "\<And>a st. keyed st \<Longrightarrow>
      keyed (f a st) \<and> set (tileMap st) \<subseteq> set (tileMap (f a st))"
    and "keyed st"
  shows "keyed (fold f as st) \<and> set (tileMap st) \<subseteq> set (tileMap (fold f as st))"
  using assms(2)
proof (induction as arbitrary: st)
  case Nil
  then show ?case by simp
next
  case (Cons a as)
  from step [OF Cons.prems] have 1: "keyed (f a st)"
    and 2: "set (tileMap st) \<subseteq> set (tileMap (f a st))" by simp_all
  from Cons.IH [OF 1] 2 show ?case by auto
qed

lemma fold_hits:
  assumes step: "\<And>a st. keyed st \<Longrightarrow>
      keyed (f a st) \<and> set (tileMap st) \<subseteq> set (tileMap (f a st))"
    and hit: "\<And>st. keyed st \<Longrightarrow> t \<in> snd ` set (tileMap (f a st))"
    and "a \<in> set as" and "keyed st"
  shows "t \<in> snd ` set (tileMap (fold f as st))"
proof -
  from \<open>a \<in> set as\<close> obtain as1 as2 where as: "as = as1 @ a # as2"
    by (auto dest: split_list)
  have 1: "keyed (fold f as1 st)"
    using fold_grows [of f st as1] step \<open>keyed st\<close> by blast
  have 2: "t \<in> snd ` set (tileMap (f a (fold f as1 st)))"
    by (rule hit [OF 1])
  have 3: "keyed (f a (fold f as1 st))"
    using step [OF 1] by simp
  have "set (tileMap (f a (fold f as1 st))) \<subseteq> set (tileMap (fold f as2 (f a (fold f as1 st))))"
    using fold_grows [of f "f a (fold f as1 st)" as2] step 3 by blast
  with 2 show ?thesis
    unfolding as by auto
qed

lemma row_grows:
  "keyed st \<Longrightarrow> keyed (fold (visitTile geo skip i f z x) ys st)
     \<and> set (tileMap st) \<subseteq> set (tileMap (fold (visitTile geo skip i f z x) ys st))"
  by (rule fold_grows) (rule visitTile_keyed)

lemma processFeature_grows:
  assumes "keyed st"
  shows "keyed (processFeature geo z e st)
     \<and> set (tileMap st) \<subseteq> set (tileMap (processFeature geo z e st))"
proof -
  obtain i f where e: "e = (i, f)" by (cases e)
  obtain b0 b1 b2 b3 where b: "turf_bbox geo f = (b0, b1, b2, b3)"
    by (cases "turf_bbox geo f") auto
  show ?thesis
    unfolding processFeature_def e b prod.case Let_def
    by (rule fold_grows [OF row_grows assms])
qed

lemma features_grow:
  "keyed st \<Longrightarrow> keyed (fold (processFeature geo z) es st)
     \<and> set (tileMap st) \<subseteq> set (tileMap (fold (processFeature geo z) es st))"
  by (rule fold_grows) (rule processFeature_grows)

lemma keyed_empty: "keyed \<lparr>tileSet = [], tileMap = [], intersectionTests = []\<rparr>"
  by (simp add: keyed_def)

lemma calculateTiles_keyed: "keyed (calculateTiles geo geojson minZoom maxZoom)"
proof -
  have "keyed (fold (\<lambda>z. fold (processFeature geo z) es) zs st0)" if "keyed st0" for es zs st0
    using fold_grows [of "\<lambda>z. fold (processFeature geo z) es" st0 zs] features_grow that
    by blast
  then show ?thesis
    unfolding calculateTiles_def Let_def using keyed_empty by blast
qed

lemma keyed_distinct:
  assumes "keyed st"
  shows "distinct (map (\<lambda>t. (tile_z t, tile_x t, tile_y t)) (map snd (tileMap st)))"
proof -
  let ?triple = "\<lambda>t. (tile_z t, tile_x t, tile_y t)"
  let ?key = "\<lambda>(z, x, y). tileKey z x y"
  have "map fst (tileMap st) = map ?key (map ?triple (map snd (tileMap st)))"
    using assms by (simp add: keyed_def)
  moreover have "distinct (map fst (tileMap st))"
    using assms by (simp add: keyed_def)
  ultimately have "distinct (map ?key (map ?triple (map snd (tileMap st))))"
    by (simp only:)
  then show ?thesis
    by (rule distinct_map [THEN iffD1, THEN conjunct1])
qed

text \<open>
  C6. The list returned by \<open>calculateTilesForGeoJSON\<close> never has two tiles with the same
  zoom, column and row, whatever the input (a bare geometry, a feature or a feature
  collection, overlapping or not) and the zoom range.
\<close>

theorem calculateTilesForGeoJSON_distinct:
  "distinct (map (\<lambda>t. (tile_z t, tile_x t, tile_y t))
     (calculateTilesForGeoJSON geo geojson minZoom maxZoom))"
  unfolding calculateTilesForGeoJSON_def
  by (rule keyed_distinct [OF calculateTiles_keyed])

theorem calculateTilesForGeoJSON_distinct_witness:
  "calculateTilesForGeoJSON demo_geo demo_overlap 0 0
     = [\<lparr>tile_x = 0, tile_y = 0, tile_z = 0\<rparr>, \<lparr>tile_x = 1, tile_y = 0, tile_z = 0\<rparr>,
        \<lparr>tile_x = 2, tile_y = 0, tile_z = 0\<rparr>]
   \<and> distinct (map (\<lambda>t. (tile_z t, tile_x t, tile_y t))
        (calculateTilesForGeoJSON demo_geo demo_overlap 0 0))"
proof -
  have "calculateTilesForGeoJSON demo_geo demo_overlap 0 0
     = [\<lparr>tile_x = 0, tile_y = 0, tile_z = 0\<rparr>, \<lparr>tile_x = 1, tile_y = 0, tile_z = 0\<rparr>,
        \<lparr>tile_x = 2, tile_y = 0, tile_z = 0\<rparr>]"
    by code_simp
  then show ?thesis
    using calculateTilesForGeoJSON_distinct [of demo_geo demo_overlap 0 0] by simp
qed

lemma row_hits:
  assumes "keyed st" "y \<in> set ys"
  shows "\<lparr>tile_x = x, tile_y = y, tile_z = z\<rparr>
           \<in> snd ` set (tileMap (fold (visitTile geo True i f z x) ys st))"
  by (rule fold_hits [where a = y, OF visitTile_keyed visitTile_adds assms(2) assms(1)])

lemma processFeature_hits:
  assumes "keyed st"
    and "turf_bbox geo f = (b0, b1, b2, b3)"
    and "potentialTileCount (latLonToTile geo b3 b0 z) (latLonToTile geo b1 b2 z) > 10000"
    and "fst (latLonToTile geo b3 b0 z) \<le> x" "x \<le> fst (latLonToTile geo b1 b2 z)"
    and "snd (latLonToTile geo b3 b0 z) \<le> y" "y \<le> snd (latLonToTile geo b1 b2 z)"
  shows "\<lparr>tile_x = x, tile_y = y, tile_z = z\<rparr>
           \<in> snd ` set (tileMap (processFeature geo z (i, f) st))"
proof -
  let ?ys = "[snd (latLonToTile geo b3 b0 z)..snd (latLonToTile geo b1 b2 z)]"
  let ?xs = "[fst (latLonToTile geo b3 b0 z)..fst (latLonToTile geo b1 b2 z)]"
  have y: "y \<in> set ?ys" and x: "x \<in> set ?xs"
    using assms(4-7) by simp_all
  have "\<lparr>tile_x = x, tile_y = y, tile_z = z\<rparr>
      \<in> snd ` set (tileMap (fold (\<lambda>x. fold (visitTile geo True i f z x) ?ys) ?xs st))"
  proof (rule fold_hits [where a = x and f = "\<lambda>x. fold (visitTile geo True i f z x) ?ys"])
    show "keyed (fold (visitTile geo True i f z a) ?ys s)
        \<and> set (tileMap s) \<subseteq> set (tileMap (fold (visitTile geo True i f z a) ?ys s))"
      if "keyed s" for a s
      using that by (rule row_grows)
    show "\<lparr>tile_x = x, tile_y = y, tile_z = z\<rparr>
        \<in> snd ` set (tileMap (fold (visitTile geo True i f z x) ?ys s))" if "keyed s" for s
      using that y by (rule row_hits)
    show "x \<in> set ?xs" by (rule x)
    show "keyed st" by (rule assms(1))
  qed
  then show ?thesis
    using assms(2,3) by (simp add: processFeature_def Let_def)
qed

lemma visitTile_tests_inv:
  assumes "\<forall>e \<in> set (intersectionTests st). P e" "skip \<or> P (i, x, y, z)"
  shows "\<forall>e \<in> set (intersectionTests (visitTile geo skip i f z x y st)). P e"
  using assms visitTile_tests [of geo skip i f z x y st] by (auto split: if_splits)

lemma processFeature_tests_inv:
  assumes "\<forall>e \<in> set (intersectionTests st). P e"
    and "\<And>b0 b1 b2 b3. turf_bbox geo f = (b0, b1, b2, b3) \<Longrightarrow>
           potentialTileCount (latLonToTile geo b3 b0 z) (latLonToTile geo b1 b2 z) > 10000
           \<or> (\<forall>x y. P (i, x, y, z))"
  shows "\<forall>e \<in> set (intersectionTests (processFeature geo z (i, f) st)). P e"
proof -
  obtain b0 b1 b2 b3 where b: "turf_bbox geo f = (b0, b1, b2, b3)"
    by (cases "turf_bbox geo f") auto
  let ?skip = "potentialTileCount (latLonToTile geo b3 b0 z) (latLonToTile geo b1 b2 z) > 10000"
  from assms(2) [OF b] have sk: "?skip \<or> P (i, x, y, z)" for x y
    by blast
  have row: "\<forall>e \<in> set (intersectionTests (fold (visitTile geo ?skip i f z x) ys s)). P e"
    if "\<forall>e \<in> set (intersectionTests s). P e" for x ys s
    using that
  proof (induction ys arbitrary: s)
    case Nil
    then show ?case by simp
  next
    case (Cons y ys)
    have "\<forall>e \<in> set (intersectionTests (visitTile geo ?skip i f z x y s)). P e"
      using Cons.prems sk by (rule visitTile_tests_inv)
    from Cons.IH [OF this] show ?case by simp
  qed
  have rows: "\<forall>e \<in> set (intersectionTests
       (fold (\<lambda>x. fold (visitTile geo ?skip i f z x) ys) xs s)). P e"
    if "\<forall>e \<in> set (intersectionTests s). P e" for xs ys s
    using that
  proof (induction xs arbitrary: s)
    case Nil
    then show ?case by simp
  next
    case (Cons x xs)
    from Cons.IH [OF row [OF Cons.prems]] show ?case by simp
  qed
  show ?thesis
    using rows [OF assms(1)] b by (simp add: processFeature_def Let_def)
qed

lemma features_tests_inv:
  assumes "\<forall>e \<in> set (intersectionTests st). P e"
    and "\<And>j g b0 b1 b2 b3. (j, g) \<in> set es \<Longrightarrow> turf_bbox geo g = (b0, b1, b2, b3) \<Longrightarrow>
           potentialTileCount (latLonToTile geo b3 b0 z) (latLonToTile geo b1 b2 z) > 10000
           \<or> (\<forall>x y. P (j, x, y, z))"
  shows "\<forall>e \<in> set (intersectionTests (fold (processFeature geo z) es st)). P e"
  using assms
proof (induction es arbitrary: st)
  case Nil
  then show ?case by simp
next
  case (Cons e es)
  obtain j g where e: "e = (j, g)" by (cases e)
  have 1: "\<forall>e \<in> set (intersectionTests (processFeature geo z (j, g) st)). P e"
    by (rule processFeature_tests_inv [OF Cons.prems(1)]) (rule Cons.prems(2), simp_all add: e)
  have "\<forall>e \<in> set (intersectionTests (fold (processFeature geo z) es (processFeature geo z (j, g) st))). P e"
    by (rule Cons.IH [OF 1]) (rule Cons.prems(2), simp_all)
  then show ?case by (simp add: e)
qed

text \<open>
  C5. When the candidate rectangle of a feature at a zoom level has more than 10000
  potential tiles, \<open>calculateTilesForGeoJSON\<close> makes no intersection test for that
  feature at that zoom, and every tile of the rectangle is in the result.
\<close>

theorem calculateTilesForGeoJSON_large_region:
  assumes "minZoom \<le> z" "z \<le> maxZoom"
    and "i < length (featuresOf geo geojson)"
    and "turf_bbox geo (featuresOf geo geojson ! i) = (b0, b1, b2, b3)"
    and "potentialTileCount (latLonToTile geo b3 b0 z) (latLonToTile geo b1 b2 z) > 10000"
  shows "filter (\<lambda>(j, x, y, z'). j = i \<and> z' = z)
           (intersectionTests (calculateTiles geo geojson minZoom maxZoom)) = []
    \<and> (\<forall>x y. fst (latLonToTile geo b3 b0 z) \<le> x \<and> x \<le> fst (latLonToTile geo b1 b2 z)
             \<and> snd (latLonToTile geo b3 b0 z) \<le> y \<and> y \<le> snd (latLonToTile geo b1 b2 z)
           \<longrightarrow> \<lparr>tile_x = x, tile_y = y, tile_z = z\<rparr>
                 \<in> set (calculateTilesForGeoJSON geo geojson minZoom maxZoom))"
proof (intro conjI allI impI)
  let ?fs = "featuresOf geo geojson"
  let ?es = "zip [0..<length ?fs] ?fs"
  let ?P = "\<lambda>e. \<not> (case e of (j, x, y, z') \<Rightarrow> j = i \<and> z' = z)"
  let ?st0 = "\<lparr>tileSet = [], tileMap = [], intersectionTests = []\<rparr>"
  have zooms: "\<forall>e \<in> set (intersectionTests
      (fold (\<lambda>z. fold (processFeature geo z) ?es) zs s)). ?P e"
    if "\<forall>e \<in> set (intersectionTests s). ?P e" for zs s
    using that
  proof (induction zs arbitrary: s)
    case Nil
    then show ?case by simp
  next
    case (Cons z' zs)
    have "\<forall>e \<in> set (intersectionTests (fold (processFeature geo z') ?es s)). ?P e"
    proof (rule features_tests_inv [OF Cons.prems])
      fix j g c0 c1 c2 c3
      assume jg: "(j, g) \<in> set ?es" and bb: "turf_bbox geo g = (c0, c1, c2, c3)"
      from jg have g: "g = ?fs ! j"
        by (auto simp: in_set_zip)
      show "potentialTileCount (latLonToTile geo c3 c0 z') (latLonToTile geo c1 c2 z') > 10000
          \<or> (\<forall>x y. ?P (j, x, y, z'))"
      proof (cases "j = i \<and> z' = z")
        case True
        with g bb assms(4,5) show ?thesis by simp
      next
        case False
        then show ?thesis by auto
      qed
    qed
    from Cons.IH [OF this] show ?case by simp
  qed
  have "\<forall>e \<in> set (intersectionTests (calculateTiles geo geojson minZoom maxZoom)). ?P e"
    unfolding calculateTiles_def Let_def by (rule zooms) simp
  then show "filter (\<lambda>(j, x, y, z'). j = i \<and> z' = z)
      (intersectionTests (calculateTiles geo geojson minZoom maxZoom)) = []"
    by (simp add: filter_empty_conv)
next
  fix x y
  assume r: "fst (latLonToTile geo b3 b0 z) \<le> x \<and> x \<le> fst (latLonToTile geo b1 b2 z)
      \<and> snd (latLonToTile geo b3 b0 z) \<le> y \<and> y \<le> snd (latLonToTile geo b1 b2 z)"
  let ?fs = "featuresOf geo geojson"
  let ?es = "zip [0..<length ?fs] ?fs"
  let ?t = "\<lparr>tile_x = x, tile_y = y, tile_z = z\<rparr>"
  let ?st0 = "\<lparr>tileSet = [], tileMap = [], intersectionTests = []\<rparr>"
  have e: "(i, ?fs ! i) \<in> set ?es"
    using assms(3) by (auto simp: in_set_zip intro!: exI [of _ i])
  have level: "?t \<in> snd ` set (tileMap (fold (processFeature geo z) ?es s))" if "keyed s" for s
  proof (rule fold_hits [where a = "(i, ?fs ! i)"])
    show "keyed (processFeature geo z a s') \<and> set (tileMap s') \<subseteq> set (tileMap (processFeature geo z a s'))"
      if "keyed s'" for a s'
      using that by (rule processFeature_grows)
    show "?t \<in> snd ` set (tileMap (processFeature geo z (i, ?fs ! i) s'))" if "keyed s'" for s'
      using r processFeature_hits [OF that assms(4,5), of x y i] by blast
    show "(i, ?fs ! i) \<in> set ?es" by (rule e)
    show "keyed s" by (rule that)
  qed
  have "?t \<in> snd ` set (tileMap (fold (\<lambda>z. fold (processFeature geo z) ?es) [minZoom..maxZoom] ?st0))"
  proof (rule fold_hits [where a = z and f = "\<lambda>z. fold (processFeature geo z) ?es"])
    show "keyed (fold (processFeature geo a) ?es s)
        \<and> set (tileMap s) \<subseteq> set (tileMap (fold (processFeature geo a) ?es s))"
      if "keyed s" for a s
      using that by (rule features_grow)
    show "?t \<in> snd ` set (tileMap (fold (processFeature geo z) ?es s))" if "keyed s" for s
      using that by (rule level)
    show "z \<in> set [minZoom..maxZoom]" using assms(1,2) by simp
    show "keyed ?st0" by (rule keyed_empty)
  qed
  then show "?t \<in> set (calculateTilesForGeoJSON geo geojson minZoom maxZoom)"
    by (simp add: calculateTilesForGeoJSON_def calculateTiles_def Let_def)
qed

theorem calculateTilesForGeoJSON_large_region_witness:
  "(0::int) \<le> 0 \<and> 0 < length (featuresOf demo_geo demo_large)
   \<and> turf_bbox demo_geo (featuresOf demo_geo demo_large ! 0) = (0, - 99, 100, 0)
   \<and> potentialTileCount (latLonToTile demo_geo 0 0 0) (latLonToTile demo_geo (- 99) 100 0) = 10100
   \<and> filter (\<lambda>(j, x, y, z'). j = 0 \<and> z' = 0)
        (intersectionTests (calculateTiles demo_geo demo_large 0 0)) = []
   \<and> \<lparr>tile_x = 100, tile_y = 99, tile_z = 0\<rparr>
        \<in> set (calculateTilesForGeoJSON demo_geo demo_large 0 0)"
proof -
  have l: "0 < length (featuresOf demo_geo demo_large)"
    by (simp add: featuresOf_def demo_large_def)
  have b: "turf_bbox demo_geo (featuresOf demo_geo demo_large ! 0) = (0, - 99, 100, 0)"
    by (simp add: featuresOf_def demo_large_def demo_geo_def)
  have c: "potentialTileCount (latLonToTile demo_geo 0 0 0) (latLonToTile demo_geo (- 99) 100 0) = 10100"
    by (simp add: potentialTileCount_def demo_geo_def)
  have p: "potentialTileCount (latLonToTile demo_geo 0 0 0) (latLonToTile demo_geo (- 99) 100 0) > 10000"
    by (simp add: c)
  have tl: "latLonToTile demo_geo 0 0 0 = (0, 0)" and br: "latLonToTile demo_geo (- 99) 100 0 = (100, 99)"
    by (simp_all add: demo_geo_def)
  show ?thesis
    using calculateTilesForGeoJSON_large_region [of 0 0 0 0 demo_geo demo_large 0 "- 99" 100 0, OF _ _ l b p] l b c
    by (simp add: tl br)
qed

section \<open>Splitting and joining paths\<close>

lemma splitOn_nonempty: "splitOn c s \<noteq> []"
  by (induction s) (auto split: list.splits)

lemma splitOn_free: "c \<notin> set s \<Longrightarrow> splitOn c s = [s]"
  by (induction s) auto

lemma splitOn_append: "splitOn c (a @ c # b) = splitOn c a @ splitOn c b"
proof (induction a)
  case Nil
  show ?case by simp
next
  case (Cons x a)
  obtain s ss where s: "splitOn c a = s # ss"
    using splitOn_nonempty [of c a] by (cases "splitOn c a") auto
  with Cons show ?case by simp
qed

lemma splitOn_elems_free: "s \<in> set (splitOn c t) \<Longrightarrow> c \<notin> set s"
proof (induction t arbitrary: s)
  case Nil
  then show ?case by simp
next
  case (Cons x t)
  obtain u us where u: "splitOn c t = u # us"
    using splitOn_nonempty [of c t] by (cases "splitOn c t") auto
  show ?case
  proof (cases "x = c")
    case True
    with Cons show ?thesis by auto
  next
    case False
    with Cons.prems u have "s = x # u \<or> s \<in> set us" by auto
    then show ?thesis
    proof
      assume "s = x # u"
      moreover have "c \<notin> set u" using Cons.IH [of u] u by simp
      ultimately show ?thesis using False by auto
    next
      assume "s \<in> set us"
      then show ?thesis using Cons.IH [of s] u by simp
    qed
  qed
qed

lemma joinWith_append:
  "xs \<noteq> [] \<Longrightarrow> ys \<noteq> [] \<Longrightarrow> joinWith c (xs @ ys) = joinWith c xs @ c # joinWith c ys"
proof (induction c xs rule: joinWith.induct)
  case (1 c)
  then show ?case by simp
next
  case (2 c s)
  then show ?case by (cases ys) auto
next
  case (3 c s t ss)
  then show ?case by simp
qed

lemma splitOn_joinWith:
  "ss \<noteq> [] \<Longrightarrow> splitOn c (joinWith c ss) = concat (map (splitOn c) ss)"
proof (induction c ss rule: joinWith.induct)
  case (1 c)
  then show ?case by simp
next
  case (2 c s)
  then show ?case by simp
next
  case (3 c s t ss)
  then show ?case by (simp add: splitOn_append)
qed

lemma splitOn_joinWith_free:
  assumes "ss \<noteq> []" "\<forall>s \<in> set ss. c \<notin> set s"
  shows "splitOn c (joinWith c ss) = ss"
proof -
  have "concat (map (splitOn c) ss) = ss"
    using assms(2) by (induction ss) (auto simp: splitOn_free)
  with assms(1) show ?thesis by (simp add: splitOn_joinWith)
qed

lemma joinWith_Nil_iff: "joinWith c ss = [] \<longleftrightarrow> (ss = [] \<or> ss = [[]])"
  by (induction c ss rule: joinWith.induct) auto

lemma hd_joinWith: "ss \<noteq> [] \<Longrightarrow> hd ss \<noteq> [] \<Longrightarrow> hd (joinWith c ss) = hd (hd ss)"
  by (induction c ss rule: joinWith.induct) auto

lemma last_joinWith: "ss \<noteq> [] \<Longrightarrow> last ss \<noteq> [] \<Longrightarrow> last (joinWith c ss) = last (last ss)"
  by (induction c ss rule: joinWith.induct) (auto simp: joinWith_Nil_iff)

lemma normalizeSegs_append:
  "normalizeSegs a res (xs @ ys) = normalizeSegs a (normalizeSegs a res xs) ys"
  by (induction a res xs rule: normalizeSegs.induct) auto

lemma normalizeSegs_plain:
  "\<forall>s \<in> set xs. plain s \<Longrightarrow> normalizeSegs a res xs = res @ xs"
  by (induction xs arbitrary: res) (auto simp: plain_def)

lemma normalizeSegs_free:
  assumes "\<forall>s \<in> set res. CHR ''/'' \<notin> set s" "\<forall>s \<in> set xs. CHR ''/'' \<notin> set s"
  shows "\<forall>s \<in> set (normalizeSegs a res xs). CHR ''/'' \<notin> set s"
  using assms
proof (induction a res xs rule: normalizeSegs.induct)
  case (1 a res)
  then show ?case by simp
next
  case (2 a res seg segs)
  have bl: "\<forall>s \<in> set (butlast res). CHR ''/'' \<notin> set s"
    using "2.prems"(1) by (auto dest: in_set_butlastD)
  show ?case
    using 2 bl by (auto split: if_splits)
qed

declare ve_loop.simps [simp del]

lemma joinWith_flatten:
  assumes "ds \<noteq> []"
  shows "joinWith c (pre @ joinWith c ds # rest) = joinWith c (pre @ ds @ rest)"
proof -
  have 1: "joinWith c (joinWith c ds # rest) = joinWith c (ds @ rest)"
  proof (cases rest)
    case Nil
    then show ?thesis by simp
  next
    case (Cons r rs)
    then show ?thesis using assms by (simp add: joinWith_append)
  qed
  show ?thesis
  proof (cases pre)
    case Nil
    with 1 show ?thesis by simp
  next
    case (Cons p ps)
    then have "pre \<noteq> []" by simp
    then show ?thesis
      using 1 assms by (simp add: joinWith_append)
  qed
qed

lemma joinWith_nonempty: "ss \<noteq> [] \<Longrightarrow> last ss \<noteq> [] \<Longrightarrow> joinWith c ss \<noteq> []"
  by (auto simp: joinWith_Nil_iff)

lemma normalize_join:
  assumes "\<forall>s \<in> set pre. s \<noteq> []" "tail \<noteq> []" "\<forall>s \<in> set tail. plain s"
  shows "normalize (joinWith CHR ''/'' (pre @ tail))
     = (if pre \<noteq> [] \<and> hd (hd pre) = CHR ''/'' then ''/'' else [])
       @ joinWith CHR ''/''
           (normalizeSegs (\<not> (pre \<noteq> [] \<and> hd (hd pre) = CHR ''/'')) []
              (concat (map (splitOn CHR ''/'') pre)) @ tail)"
proof -
  let ?J = "joinWith CHR ''/'' (pre @ tail)"
  let ?A = "pre \<noteq> [] \<and> hd (hd pre) = CHR ''/''"
  let ?R = "normalizeSegs (\<not> ?A) [] (concat (map (splitOn CHR ''/'') pre))"
  have lt: "plain (last tail)" and ht: "plain (hd tail)"
    using assms(2,3) by simp_all
  have ne: "pre @ tail \<noteq> []" using assms(2) by simp
  have lne: "last (pre @ tail) \<noteq> []"
    using lt assms(2) by (simp add: plain_def)
  have hne: "hd (pre @ tail) \<noteq> []"
    using ht assms(1,2) by (cases pre) (auto simp: plain_def)
  have J: "?J \<noteq> []"
    using ne lne by (rule joinWith_nonempty)
  have "hd ?J = hd (hd (pre @ tail))"
    by (rule hd_joinWith [OF ne hne])
  moreover have "hd (hd tail) \<noteq> CHR ''/''"
    using ht by (cases "hd tail") (auto simp: plain_def)
  ultimately have abs: "(hd ?J = CHR ''/'') = ?A"
    by (cases pre) auto
  have "last ?J = last (last (pre @ tail))"
    by (rule last_joinWith [OF ne lne])
  moreover have "last (last tail) \<noteq> CHR ''/''"
  proof
    assume e: "last (last tail) = CHR ''/''"
    from lt have "last tail \<noteq> []" by (simp add: plain_def)
    then have "last (last tail) \<in> set (last tail)" by (rule last_in_set)
    with e lt show False by (simp add: plain_def)
  qed
  ultimately have trail: "last ?J \<noteq> CHR ''/''"
    using assms(2) by simp
  have "concat (map (splitOn CHR ''/'') tail) = tail"
    using assms(3) by (induction tail) (auto simp: splitOn_free plain_def)
  then have split: "splitOn CHR ''/'' ?J = concat (map (splitOn CHR ''/'') pre) @ tail"
    using ne by (simp add: splitOn_joinWith)
  have segs: "normalizeSegs (\<not> ?A) [] (splitOn CHR ''/'' ?J) = ?R @ tail"
    unfolding split normalizeSegs_append using assms(3) by (rule normalizeSegs_plain)
  have p: "joinWith CHR ''/'' (?R @ tail) \<noteq> []"
    using lt assms(2) by (intro joinWith_nonempty) (simp_all add: plain_def)
  show ?thesis
    using J abs trail segs p by (simp add: normalize_def Let_def)
qed

lemma level_path:
  assumes "\<forall>c \<in> set ds. c \<noteq> CHR ''/'' \<and> c \<noteq> CHR ''.''"
  shows "foldl (\<lambda>result c. path_join [result, [c]]) [] ds = joinWith CHR ''/'' (map (\<lambda>c. [c]) ds)"
  using assms
proof (induction ds rule: rev_induct)
  case Nil
  show ?case by simp
next
  case (snoc c ds)
  let ?segs = "map (\<lambda>c. [c]) ds"
  have pl: "\<forall>s \<in> set (?segs @ [[c]]). plain s"
    using snoc.prems by (auto simp: plain_def)
  have n: "normalize (joinWith CHR ''/'' (?segs @ [[c]])) = joinWith CHR ''/'' (?segs @ [[c]])"
    using normalize_join [of "[]" "?segs @ [[c]]"] pl by simp
  have ne: "joinWith CHR ''/'' (?segs @ [[c]]) \<noteq> []"
    by (auto simp: joinWith_Nil_iff)
  have IH: "foldl (\<lambda>result c. path_join [result, [c]]) [] ds = joinWith CHR ''/'' ?segs"
    using snoc by simp
  show ?case
  proof (cases ds)
    case Nil
    then show ?thesis using n by (simp add: path_join_def)
  next
    case (Cons d ds')
    then have sne: "?segs \<noteq> []" by simp
    then have jne: "joinWith CHR ''/'' ?segs \<noteq> []"
      using Cons by (auto simp: joinWith_Nil_iff)
    have "joinWith CHR ''/'' [joinWith CHR ''/'' ?segs, [c]] = joinWith CHR ''/'' (?segs @ [[c]])"
      using joinWith_flatten [OF sne, of "CHR ''/''" "[]" "[[c]]"] by simp
    then show ?thesis
      using IH jne n ne by (simp add: path_join_def Let_def del: joinWith.simps)
  qed
qed

lemma toString_digit: "0 \<le> c \<Longrightarrow> c < 10 \<Longrightarrow> toString c = [digit_char (nat c)]"
  by (simp add: toString_def showNat.simps)

lemma quad_digit:
  "toString ((if js_rem x 2 = 1 then 1 else 0) + (if js_rem y 2 = 1 then 2 else 0))
     \<in> {''0'', ''1'', ''2'', ''3''}"
  by (simp add: toString_digit digit_char_def)

lemma js_rem_2: "0 \<le> x \<Longrightarrow> (js_rem x 2 = 1) = (x mod 2 = 1)"
  by (cases "x = 0") (simp_all add: js_rem_def)

lemma quad_digit_inj:
  assumes "0 \<le> x" "0 \<le> y" "0 \<le> x'" "0 \<le> y'"
    and "toString ((if js_rem x 2 = 1 then 1 else 0) + (if js_rem y 2 = 1 then 2 else 0)) @ b
       = toString ((if js_rem x' 2 = 1 then 1 else 0) + (if js_rem y' 2 = 1 then 2 else 0)) @ b'"
  shows "x mod 2 = x' mod 2 \<and> y mod 2 = y' mod 2 \<and> b = b'"
proof -
  have m: "(a mod 2 \<noteq> 1) = (a mod 2 = 0)" for a :: int by presburger
  show ?thesis
    using assms(5) m [of x] m [of y] m [of x'] m [of y']
    by (simp add: js_rem_2 assms(1-4) toString_digit digit_char_def split: if_splits)
qed

lemma ve_loop_length:
  "length (ve_loop i level x y b) = nat (level + 1 - i) + length b"
proof (induction i level x y b rule: ve_loop.induct)
  case (1 i level x y b)
  show ?case
  proof (cases "i \<le> level")
    case True
    have "length (toString ((if js_rem x 2 = 1 then 1 else 0) + (if js_rem y 2 = 1 then 2 else 0))) = 1"
      using quad_digit [of x y] by auto
    with True "1.IH" [OF True refl] show ?thesis
      by (subst ve_loop.simps) (simp add: Let_def nat_diff_distrib)
  next
    case False
    then show ?thesis by (subst ve_loop.simps) simp
  qed
qed

lemma ve_loop_chars:
  "set (ve_loop i level x y b) \<subseteq> set ''0123'' \<union> set b"
proof (induction i level x y b rule: ve_loop.induct)
  case (1 i level x y b)
  show ?case
  proof (cases "i \<le> level")
    case True
    have "set (toString ((if js_rem x 2 = 1 then 1 else 0) + (if js_rem y 2 = 1 then 2 else 0)))
        \<subseteq> set ''0123''"
      using quad_digit [of x y] by auto
    with True "1.IH" [OF True refl] show ?thesis
      by (subst ve_loop.simps) (auto simp: Let_def)
  next
    case False
    then show ?thesis by (subst ve_loop.simps) auto
  qed
qed

lemma ve_loop_inj:
  assumes "nat (level + 1 - i) = n" "length b = length b'"
    and "0 \<le> x" "x < 2 ^ n" "0 \<le> y" "y < 2 ^ n"
    and "0 \<le> x'" "x' < 2 ^ n" "0 \<le> y'" "y' < 2 ^ n"
    and "ve_loop i level x y b = ve_loop i level x' y' b'"
  shows "x = x' \<and> y = y' \<and> b = b'"
  using assms
proof (induction n arbitrary: i x y x' y' b b')
  case 0
  then have "\<not> i \<le> level" by simp
  with 0 show ?case
    by (simp add: ve_loop.simps [of i])
next
  case (Suc n)
  then have le: "i \<le> level" by simp
  let ?c = "toString ((if js_rem x 2 = 1 then 1 else 0) + (if js_rem y 2 = 1 then 2 else 0))"
  let ?c' = "toString ((if js_rem x' 2 = 1 then 1 else 0) + (if js_rem y' 2 = 1 then 2 else 0))"
  have eq: "ve_loop (i + 1) level (x div 2) (y div 2) (?c @ b)
      = ve_loop (i + 1) level (x' div 2) (y' div 2) (?c' @ b')"
    using Suc.prems(11) le
    by (simp add: ve_loop.simps [of i] Let_def)
  have len: "length (?c @ b) = length (?c' @ b')"
    using quad_digit [of x y] quad_digit [of x' y'] Suc.prems(2) by auto
  have n: "nat (level + 1 - (i + 1)) = n"
    using Suc.prems(1) by simp
  have r: "x div 2 < 2 ^ n" "y div 2 < 2 ^ n" "x' div 2 < 2 ^ n" "y' div 2 < 2 ^ n"
    using Suc.prems(4,6,8,10) by simp_all
  have p: "0 \<le> x div 2" "0 \<le> y div 2" "0 \<le> x' div 2" "0 \<le> y' div 2"
    using Suc.prems(3,5,7,9) by simp_all
  from Suc.IH [OF n len p(1) r(1) p(2) r(2) p(3) r(3) p(4) r(4) eq]
  have d: "x div 2 = x' div 2" "y div 2 = y' div 2" and c: "?c @ b = ?c' @ b'"
    by simp_all
  from quad_digit_inj [OF Suc.prems(3,5,7,9) c]
  have m: "x mod 2 = x' mod 2" "y mod 2 = y' mod 2" and b: "b = b'"
    by simp_all
  have "x = x'" using d(1) m(1) by (metis div_mult_mod_eq)
  moreover have "y = y'" using d(2) m(2) by (metis div_mult_mod_eq)
  ultimately show ?case using b by simp
qed

section \<open>Tile paths\<close>

lemma padCoord_no_slash: "CHR ''/'' \<notin> set (padCoord i)"
  using toString_no_slash [of i] by (auto simp: padCoord_def Let_def)

lemma getOutputTileName_no_slash:
  "CHR ''/'' \<notin> set namePrefix \<Longrightarrow> CHR ''/'' \<notin> set (getOutputTileName namePrefix level i j)"
  using toString_no_slash [of level] padCoord_no_slash [of i] padCoord_no_slash [of j]
  by (auto simp: getOutputTileName_def)

lemma getOutputTileName_underscore:
  "CHR ''_'' \<in> set (getOutputTileName namePrefix level i j)"
  by (simp add: getOutputTileName_def)

lemma file_plain:
  assumes "CHR ''/'' \<notin> set name" "CHR ''/'' \<notin> set format"
  shows "plain (getOutputTileName name z x y @ ''.'' @ format)"
proof -
  define f where "f = getOutputTileName name z x y @ ''.'' @ format"
  have u: "CHR ''_'' \<in> set f"
    using getOutputTileName_underscore [of name z x y] by (simp add: f_def)
  have "CHR ''/'' \<notin> set f"
    using getOutputTileName_no_slash [OF assms(1), of z x y] assms(2) by (simp add: f_def)
  moreover have "f \<noteq> ''.''" "f \<noteq> ''..''" "f \<noteq> []"
    using u by auto
  ultimately show ?thesis
    unfolding f_def [symmetric] by (simp add: plain_def)
qed

lemma path_join_tail:
  assumes "tail \<noteq> []" "\<forall>s \<in> set tail. plain s"
  shows "path_join (args @ tail)
     = (if filter (\<lambda>arg. arg \<noteq> []) args \<noteq> [] \<and> hd (hd (filter (\<lambda>arg. arg \<noteq> []) args)) = CHR ''/''
        then ''/'' else [])
       @ joinWith CHR ''/''
           (normalizeSegs (\<not> (filter (\<lambda>arg. arg \<noteq> []) args \<noteq> []
                 \<and> hd (hd (filter (\<lambda>arg. arg \<noteq> []) args)) = CHR ''/'')) []
              (concat (map (splitOn CHR ''/'') (filter (\<lambda>arg. arg \<noteq> []) args))) @ tail)"
proof -
  let ?pre = "filter (\<lambda>arg. arg \<noteq> []) args"
  have t: "filter (\<lambda>arg. arg \<noteq> []) tail = tail"
    using assms(2) by (auto simp: plain_def filter_id_conv)
  have ne: "joinWith CHR ''/'' (?pre @ tail) \<noteq> []"
    using assms by (intro joinWith_nonempty) (simp_all add: plain_def)
  have pre: "\<forall>s \<in> set ?pre. s \<noteq> []" by simp
  show ?thesis
    using ne normalize_join [OF pre assms]
    by (simp add: path_join_def Let_def t)
qed

lemma path_join_level:
  assumes "segs \<noteq> []" "\<forall>s \<in> set segs. s \<noteq> []"
  shows "path_join (args @ joinWith CHR ''/'' segs # rest) = path_join (args @ segs @ rest)"
proof -
  have "joinWith CHR ''/'' segs \<noteq> []"
    using assms by (intro joinWith_nonempty) simp_all
  moreover have "filter (\<lambda>arg. arg \<noteq> []) segs = segs"
    using assms(2) by (auto simp: filter_id_conv)
  ultimately show ?thesis
    using joinWith_flatten [OF assms(1), of "CHR ''/''" "filter (\<lambda>arg. arg \<noteq> []) args"
        "filter (\<lambda>arg. arg \<noteq> []) rest"]
    by (simp add: path_join_def Let_def)
qed

lemma quad_plain:
  "\<forall>s \<in> set (map (\<lambda>c. [c]) (ve_loop i level x y [])). plain s"
  using ve_loop_chars [of i level x y "[]"] by (auto simp: plain_def)

lemma generateTilePath_shape:
  assumes "CHR ''/'' \<notin> set name"
  shows "\<exists>P R. (\<forall>s \<in> set R. CHR ''/'' \<notin> set s)
    \<and> (\<forall>x y z format. CHR ''/'' \<notin> set format \<longrightarrow> 0 \<le> z \<longrightarrow>
          generateTilePath cfg name x y z format
            = P @ joinWith CHR ''/''
                (R @ map (\<lambda>c. [c]) (if z = 0 then [] else ve_loop 1 z x y [])
                   @ [getOutputTileName name z x y @ ''.'' @ format]))"
proof -
  define args where "args = [TileCacheFolder cfg, name]"
  define pre where "pre = filter (\<lambda>arg. arg \<noteq> []) args"
  define A where "A = (pre \<noteq> [] \<and> hd (hd pre) = CHR ''/'')"
  define R where "R = normalizeSegs (\<not> A) [] (concat (map (splitOn CHR ''/'') pre))"
  define P where "P = (if A then ''/'' else [])"
  have Rfree: "\<forall>s \<in> set R. CHR ''/'' \<notin> set s"
    unfolding R_def by (rule normalizeSegs_free) (auto dest: splitOn_elems_free)
  have tail: "path_join (args @ tail) = P @ joinWith CHR ''/'' (R @ tail)"
    if "tail \<noteq> []" "\<forall>s \<in> set tail. plain s" for tail
    unfolding path_join_tail [OF that] P_def R_def A_def pre_def ..
  have main: "generateTilePath cfg name x y z format
      = P @ joinWith CHR ''/''
          (R @ map (\<lambda>c. [c]) (if z = 0 then [] else ve_loop 1 z x y [])
             @ [getOutputTileName name z x y @ ''.'' @ format])"
    if f: "CHR ''/'' \<notin> set format" and z: "0 \<le> z" for x y z format
  proof -
    define fname where "fname = getOutputTileName name z x y @ ''.'' @ format"
    have fp: "plain fname"
      unfolding fname_def by (rule file_plain [OF assms f])
    show ?thesis
    proof (cases "z = 0")
      case True
      have "generateTilePath cfg name x y z format = path_join (args @ [fname])"
        using True
        by (simp add: generateTilePath_def createTileLevelPath_def getMicrosoftVETile_def
            Let_def args_def fname_def)
      also have "\<dots> = P @ joinWith CHR ''/'' (R @ [fname])"
        using fp by (intro tail) simp_all
      finally show ?thesis
        using True by (simp add: fname_def)
    next
      case False
      define q where "q = ve_loop 1 z x y []"
      define segs where "segs = map (\<lambda>c. [c]) q"
      have len: "length q = nat z"
        using ve_loop_length [of 1 z x y "[]"] by (simp add: q_def)
      with z False have qne: "q \<noteq> []" by auto
      have chars: "set q \<subseteq> set ''0123''"
        using ve_loop_chars [of 1 z x y "[]"] by (simp add: q_def)
      then have qu: "q \<noteq> ''_''" by auto
      have "foldl (\<lambda>result c. path_join [result, [c]]) [] q = joinWith CHR ''/'' segs"
        unfolding segs_def using chars by (intro level_path) auto
      then have lv: "createTileLevelPath z x y = joinWith CHR ''/'' segs"
        using False qu
        by (simp add: createTileLevelPath_def getMicrosoftVETile_def Let_def q_def [symmetric])
      have sne: "segs \<noteq> []" using qne by (simp add: segs_def)
      have sp: "\<forall>s \<in> set segs. plain s"
        using quad_plain [of 1 z x y] by (simp add: segs_def q_def)
      then have sn: "\<forall>s \<in> set segs. s \<noteq> []"
        by (auto simp: plain_def)
      have lne: "joinWith CHR ''/'' segs \<noteq> []"
        using sne sn by (intro joinWith_nonempty) simp_all
      have "generateTilePath cfg name x y z format
          = path_join (args @ joinWith CHR ''/'' segs # [fname])"
        using lne by (simp add: generateTilePath_def lv Let_def args_def fname_def)
      also have "\<dots> = path_join (args @ segs @ [fname])"
        by (rule path_join_level [OF sne sn])
      also have "\<dots> = P @ joinWith CHR ''/'' (R @ segs @ [fname])"
        using fp sp by (intro tail) simp_all
      finally show ?thesis
        using False by (simp add: fname_def segs_def q_def)
    qed
  qed
  from Rfree main show ?thesis by blast
qed

text \<open>
  C7, as the code has it. \<open>generateTilePath\<close> is a function of the cache folder, the
  tile map name, the coordinates and the format, and of nothing else. When neither the
  tile map name nor the format contains the path separator, two tiles of the standard
  range (\<open>0 \<le> x, y < 2^z\<close>) with the same path are the same tile: the quadrant digits
  of the directory part determine zoom, column and row, also where the file name is
  clamped (\<open>x\<close> or \<open>y\<close> from \<open>10^8\<close>, zoom from 100).
\<close>

theorem generateTilePath_injective:
  assumes "CHR ''/'' \<notin> set tileMapName" "CHR ''/'' \<notin> set format"
    and "0 \<le> z" "0 \<le> x" "x < 2 ^ nat z" "0 \<le> y" "y < 2 ^ nat z"
    and "0 \<le> z'" "0 \<le> x'" "x' < 2 ^ nat z'" "0 \<le> y'" "y' < 2 ^ nat z'"
    and "generateTilePath cfg tileMapName x y z format
           = generateTilePath cfg tileMapName x' y' z' format"
  shows "z = z' \<and> x = x' \<and> y = y'"
proof -
  let ?q = "\<lambda>z x y. if z = 0 then [] else ve_loop 1 z x y []"
  let ?file = "\<lambda>z x y. getOutputTileName tileMapName z x y @ ''.'' @ format"
  from generateTilePath_shape [OF assms(1), of cfg]
  obtain P R where PR: "(\<forall>s \<in> set R. CHR ''/'' \<notin> set s)
    \<and> (\<forall>x y z format. CHR ''/'' \<notin> set format \<longrightarrow> 0 \<le> z \<longrightarrow>
          generateTilePath cfg tileMapName x y z format
            = P @ joinWith CHR ''/''
                (R @ map (\<lambda>c. [c]) (if z = 0 then [] else ve_loop 1 z x y [])
                   @ [getOutputTileName tileMapName z x y @ ''.'' @ format]))"
    by (elim exE)
  from PR have R: "\<forall>s \<in> set R. CHR ''/'' \<notin> set s" ..
  note sh = PR [THEN conjunct2, rule_format]
  have shape: "generateTilePath cfg tileMapName x y z format
          = P @ joinWith CHR ''/'' (R @ map (\<lambda>c. [c]) (?q z x y) @ [?file z x y])"
    if "0 \<le> z" for x y z
    by (rule sh [OF assms(2) that])
  have ff: "CHR ''/'' \<notin> set (?file z x y)" for x y z
    using file_plain [OF assms(1,2), of z x y] unfolding plain_def by (elim conjE)
  have qf: "\<forall>s \<in> set (map (\<lambda>c. [c]) (?q z x y)). CHR ''/'' \<notin> set s" for x y z
  proof (cases "z = 0")
    case True
    then show ?thesis by simp
  next
    case False
    have "\<forall>s \<in> set (map (\<lambda>c. [c]) (ve_loop 1 z x y [])). CHR ''/'' \<notin> set s"
      using quad_plain [of 1 z x y] unfolding plain_def by blast
    with False show ?thesis by simp
  qed
  have free: "\<forall>s \<in> set (R @ map (\<lambda>c. [c]) (?q z x y) @ [?file z x y]). CHR ''/'' \<notin> set s"
    for x y z
    unfolding set_append ball_Un using R qf [of z x y] ff [of z x y] by simp
  from assms(13) shape [OF assms(3)] shape [OF assms(8)]
  have "joinWith CHR ''/'' (R @ map (\<lambda>c. [c]) (?q z x y) @ [?file z x y])
      = joinWith CHR ''/'' (R @ map (\<lambda>c. [c]) (?q z' x' y') @ [?file z' x' y'])"
    by simp
  moreover have "splitOn CHR ''/'' (joinWith CHR ''/'' (R @ map (\<lambda>c. [c]) (?q z x y) @ [?file z x y]))
      = R @ map (\<lambda>c. [c]) (?q z x y) @ [?file z x y]" for x y z
    by (rule splitOn_joinWith_free) (simp, rule free)
  ultimately have "R @ map (\<lambda>c. [c]) (?q z x y) @ [?file z x y]
      = R @ map (\<lambda>c. [c]) (?q z' x' y') @ [?file z' x' y']"
    by metis
  then have "map (\<lambda>c. [c]) (?q z x y) = map (\<lambda>c. [c]) (?q z' x' y')"
    by simp
  then have q: "?q z x y = ?q z' x' y'"
    by (simp add: inj_map_eq_map inj_on_def)
  have len: "length (?q z x y) = nat z" for x y z
    using ve_loop_length [of 1 z x y "[]"] by simp
  from q have "nat z = nat z'"
    using len [of z x y] len [of z' x' y'] by simp
  with assms(3,8) have z: "z = z'" by simp
  show ?thesis
  proof (cases "z = 0")
    case True
    with z assms show ?thesis by simp
  next
    case False
    with q z have e: "ve_loop 1 z x y [] = ve_loop 1 z x' y' []" by simp
    have n: "nat (z + 1 - 1) = nat z" by simp
    from ve_loop_inj [OF n _ assms(4,5,6,7) assms(9) _ assms(11) _ e] assms(10,12) z
    show ?thesis by simp
  qed
qed

theorem generateTilePath_injective_witness:
  "generateTilePath demo_cfg ''OSM'' 5 3 3 ''png'' = ''cache/OSM/1/2/3/OSM_03_00000005_00000003.png''
   \<and> generateTilePath demo_cfg ''OSM'' 3 5 3 ''png'' = ''cache/OSM/2/1/3/OSM_03_00000003_00000005.png''
   \<and> generateTilePath demo_cfg ''OSM'' 5 3 3 ''png'' \<noteq> generateTilePath demo_cfg ''OSM'' 3 5 3 ''png''"
proof -
  have a: "generateTilePath demo_cfg ''OSM'' 5 3 3 ''png'' = ''cache/OSM/1/2/3/OSM_03_00000005_00000003.png''"
    by code_simp
  have b: "generateTilePath demo_cfg ''OSM'' 3 5 3 ''png'' = ''cache/OSM/2/1/3/OSM_03_00000003_00000005.png''"
    by code_simp
  have n: "CHR ''/'' \<notin> set ''OSM''" and f: "CHR ''/'' \<notin> set ''png''"
    by simp_all
  have z: "(0::int) \<le> 3" and x: "(0::int) \<le> 5" "(5::int) < 2 ^ nat 3"
    and y: "(0::int) \<le> 3" "(3::int) < 2 ^ nat 3"
    by simp_all
  have "generateTilePath demo_cfg ''OSM'' 5 3 3 ''png'' \<noteq> generateTilePath demo_cfg ''OSM'' 3 5 3 ''png''"
    using generateTilePath_injective [OF n f z x y z y x, of demo_cfg] by auto
  with a b show ?thesis by simp
qed

text \<open>
  Without that condition paths can collide: \<open>path.join\<close> resolves \<open>..\<close> segments, and
  a format that contains them removes the file name and the last quadrant digit.
\<close>

theorem generateTilePath_collision:
  "generateTilePath demo_cfg ''OSM'' 0 0 1 ''/../..'' = ''cache/OSM''
   \<and> generateTilePath demo_cfg ''OSM'' 1 0 1 ''/../..'' = ''cache/OSM''"
  by code_simp

section \<open>Statistics of an operation\<close>

lemma length_remove: "i < length xs \<Longrightarrow> int (length (take i xs @ drop (Suc i) xs)) = int (length xs) - 1"
  by (simp add: min_def)

lemma accounted_tileSkipped:
  assumes "accounted k n s" "i < length (pending s)"
  shows "accounted k n (tileSkipped i s)"
proof -
  let ?s1 = "s\<lparr>stats := (stats s)\<lparr>skippedTiles := skippedTiles (stats s) + 1,
                             inProgress := inProgress (stats s) - 1\<rparr>\<rparr>"
  have "accounted k n (updateProgress ?s1\<lparr>pending := take i (pending s) @ drop (Suc i) (pending s)\<rparr>)"
    using assms length_remove [OF assms(2)]
    by (auto simp: accounted_def updateProgress_def getStats_def okStats_def completed_def)
  moreover have "tileSkipped i s = (updateProgress ?s1)\<lparr>pending := take i (pending s) @ drop (Suc i) (pending s)\<rparr>"
    by (simp add: tileSkipped_def removeJob_def updateProgress_def)
  ultimately show ?thesis by simp
qed

lemma accounted_tileDownloaded:
  assumes "accounted k n s" "i < length (pending s)"
  shows "accounted k n (tileDownloaded i s)"
proof -
  let ?s1 = "s\<lparr>stats := (stats s)\<lparr>downloadedTiles := downloadedTiles (stats s) + 1,
                             inProgress := inProgress (stats s) - 1\<rparr>\<rparr>"
  have "accounted k n (updateProgress ?s1\<lparr>pending := take i (pending s) @ drop (Suc i) (pending s)\<rparr>)"
    using assms length_remove [OF assms(2)]
    by (auto simp: accounted_def updateProgress_def getStats_def okStats_def completed_def)
  moreover have "tileDownloaded i s = (updateProgress ?s1)\<lparr>pending := take i (pending s) @ drop (Suc i) (pending s)\<rparr>"
    by (simp add: tileDownloaded_def removeJob_def updateProgress_def)
  ultimately show ?thesis by simp
qed

lemma accounted_tileFailed:
  assumes "accounted k n s" "i < length (pending s)"
  shows "accounted k n (tileFailed i s)"
proof -
  let ?s1 = "s\<lparr>stats := (stats s)\<lparr>failedTiles := failedTiles (stats s) + 1,
                             inProgress := inProgress (stats s) - 1\<rparr>,
          failedDownloads := failedDownloads s @ [job_task (pending s ! i)]\<rparr>"
  have "accounted k n (updateProgress ?s1\<lparr>pending := take i (pending s) @ drop (Suc i) (pending s)\<rparr>)"
    using assms length_remove [OF assms(2)]
    by (auto simp: accounted_def updateProgress_def getStats_def okStats_def completed_def)
  moreover have "tileFailed i s = (updateProgress ?s1)\<lparr>pending := take i (pending s) @ drop (Suc i) (pending s)\<rparr>"
    by (simp add: tileFailed_def removeJob_def updateProgress_def)
  ultimately show ?thesis by simp
qed

lemma accounted_cong:
  assumes "accounted k n s" "stats s' = stats s" "length (pending s') = length (pending s)"
    "queue s' = queue s" "rejected s' = rejected s" "notified s' = notified s"
  shows "accounted k n s'"
  using assms by (simp add: accounted_def)

lemma accounted_resume:
  assumes "accounted k n s" "i < length (pending s)"
  shows "accounted k n (downloadTile_resume i ok s)"
proof (cases "job_phase (pending s ! i)")
  case PathExists
  show ?thesis
  proof (cases "job_path (pending s ! i) \<in> files s")
    case True
    with PathExists accounted_tileSkipped [OF assms] show ?thesis
      by (simp add: downloadTile_resume_def Let_def)
  next
    case False
    have "accounted k n (setPhase i EnsureDir s)"
      by (rule accounted_cong [OF assms(1)]) (simp_all add: setPhase_def)
    with PathExists False show ?thesis
      by (simp add: downloadTile_resume_def Let_def)
  qed
next
  case EnsureDir
  have "accounted k n ((setPhase i HttpGet s)\<lparr>requests := requests s @ [job_url (pending s ! i)]\<rparr>)"
    by (rule accounted_cong [OF assms(1)]) (simp_all add: setPhase_def)
  with EnsureDir accounted_tileFailed [OF assms] show ?thesis
    by (simp add: downloadTile_resume_def Let_def)
next
  case HttpGet
  have "accounted k n (setPhase i WriteFile s)"
    by (rule accounted_cong [OF assms(1)]) (simp_all add: setPhase_def)
  with HttpGet accounted_tileFailed [OF assms] show ?thesis
    by (simp add: downloadTile_resume_def Let_def)
next
  case WriteFile
  let ?s1 = "s\<lparr>files := insert (job_path (pending s ! i)) (files s)\<rparr>"
  have "accounted k n ?s1"
    by (rule accounted_cong [OF assms(1)]) simp_all
  then have "accounted k n (tileDownloaded i ?s1)"
    by (rule accounted_tileDownloaded) (simp add: assms(2))
  with WriteFile accounted_tileFailed [OF assms] show ?thesis
    by (simp add: downloadTile_resume_def Let_def)
qed

lemma accounted_step:
  assumes "accounted k n s"
  shows "accounted k n (step cfg e s)"
proof (cases e)
  case (Start rnd)
  show ?thesis
  proof (cases "queue s")
    case Nil
    with Start assms show ?thesis by simp
  next
    case (Cons t q)
    show ?thesis
    proof (cases "length (pending s) < concurrency s")
      case False
      with Start Cons assms show ?thesis by simp
    next
      case True
      show ?thesis
      proof (cases "getTileMapByName cfg (task_name t)")
        case (Inl err)
        then have "step cfg e s = s\<lparr>queue := q, rejected := rejected s @ [err]\<rparr>"
          using Start Cons True by (simp add: downloadTile_def)
        moreover have "accounted k n (s\<lparr>queue := q, rejected := rejected s @ [err]\<rparr>)"
          using assms Cons by (auto simp: accounted_def)
        ultimately show ?thesis by simp
      next
        case (Inr tm)
        then obtain j where "step cfg e s
            = s\<lparr>queue := q, stats := (stats s)\<lparr>inProgress := inProgress (stats s) + 1\<rparr>,
                pending := pending s @ [j]\<rparr>"
          using Start Cons True by (simp add: downloadTile_def Let_def)
        moreover have "accounted k n (s\<lparr>queue := q,
            stats := (stats s)\<lparr>inProgress := inProgress (stats s) + 1\<rparr>,
            pending := pending s @ [j]\<rparr>)"
          using assms Cons by (auto simp: accounted_def completed_def)
        ultimately show ?thesis by simp
      qed
    qed
  qed
next
  case (Settle i ok)
  with assms accounted_resume [OF assms] show ?thesis by simp
qed

lemma accounted_run: "accounted k n s \<Longrightarrow> accounted k n (run cfg evs s)"
  unfolding run_def by (induction evs arbitrary: s) (simp_all add: accounted_step)


lemma accounted_start:
  assumes "idle s0"
  shows "accounted (length (rejected s0)) (length (notified s0))
           (enqueueAll ts (updateProgress (setCalculated (length ts) (resetStats s0))))"
  using assms
  by (auto simp: accounted_def idle_def enqueueAll_def updateProgress_def setCalculated_def
      resetStats_def zeroStats_def getStats_def completed_def okStats_def)

lemma accounted_boundingBox:
  "idle s0 \<Longrightarrow> accounted (length (rejected s0)) (length (notified s0))
     (downloadTilesForBoundingBox geo name bbox minZoom maxZoom s0)"
  using accounted_start [of s0 "map (taskOf name) (calculateTilesForBoundingBox geo bbox minZoom maxZoom)"]
  by (simp add: downloadTilesForBoundingBox_def Let_def)

lemma accounted_geoJSON:
  "idle s0 \<Longrightarrow> accounted (length (rejected s0)) (length (notified s0))
     (downloadTilesForGeoJSON geo name geojson minZoom maxZoom s0)"
  using accounted_start [of s0 "map (taskOf name) (calculateTilesForGeoJSON geo geojson minZoom maxZoom)"]
  by (simp add: downloadTilesForGeoJSON_def Let_def)

lemma accounted_retry:
  assumes "idle s0" "failedDownloads s0 \<noteq> []"
  shows "accounted (length (rejected s0)) (length (notified s0)) (snd (retryFailedDownloads s0))"
proof -
  have "snd (retryFailedDownloads s0)
      = enqueueAll [] (updateProgress (setCalculated (length ([]::task list)) (resetStats s0)))"
    using assms(2)
    by (simp add: retryFailedDownloads_def Let_def resetStats_def setCalculated_def
        updateProgress_def enqueueAll_def getStats_def)
  then show ?thesis
    using accounted_start [OF assms(1), of "[]"] by simp
qed

lemma taskPath_taskOf:
  "getTileMapByName cfg name = Inr tm \<Longrightarrow> taskPath cfg (taskOf name t) \<noteq> None"
  by (simp add: taskPath_def taskOf_def)

lemma resume_queue_rejected:
  "queue (downloadTile_resume i ok s) = queue s \<and> rejected (downloadTile_resume i ok s) = rejected s"
  by (cases "job_phase (pending s ! i)")
     (simp_all add: downloadTile_resume_def Let_def tileSkipped_def tileDownloaded_def
        tileFailed_def setPhase_def removeJob_def updateProgress_def)

lemma unrejected_step:
  assumes "unrejected cfg R s"
  shows "unrejected cfg R (step cfg e s)"
proof (cases e)
  case (Start rnd)
  show ?thesis
  proof (cases "queue s")
    case Nil
    with Start assms show ?thesis by simp
  next
    case (Cons t q)
    with assms obtain tm where "getTileMapByName cfg (task_name t) = Inr tm"
      by (auto simp: unrejected_def taskPath_def split: sum.splits)
    with Start Cons assms show ?thesis
      by (simp add: unrejected_def downloadTile_def Let_def)
  qed
next
  case (Settle i ok)
  with assms resume_queue_rejected [of i ok s] show ?thesis
    by (simp add: unrejected_def)
qed

lemma unrejected_run: "unrejected cfg R s \<Longrightarrow> unrejected cfg R (run cfg evs s)"
  unfolding run_def by (induction evs arbitrary: s) (simp_all add: unrejected_step)

lemma unrejected_start:
  assumes "idle s0" "\<forall>t \<in> set ts. taskPath cfg t \<noteq> None"
  shows "unrejected cfg (rejected s0)
           (enqueueAll ts (updateProgress (setCalculated n (resetStats s0))))"
  using assms
  by (simp add: unrejected_def idle_def enqueueAll_def setCalculated_def resetStats_def
      updateProgress_def)

text \<open>
  C3, as the code has it. An operation started on an idle downloader (a bounding-box
  download, a GeoJSON download, or a retry) keeps
  \<open>downloadedTiles + skippedTiles + failedTiles + inProgress \<le> totalTiles\<close> in every
  state it reaches and in every snapshot it passes to the progress callback. When the
  queue has drained, \<open>inProgress\<close> is 0 and the three counters and the number of tasks
  rejected for an unknown tile map add up to \<open>totalTiles\<close>: equality holds when no task
  was rejected, and none is when the tile map of the operation is configured.
\<close>

theorem statistics_accounted:
  assumes "idle s0"
    and "s1 = downloadTilesForBoundingBox geo name bbox minZoom maxZoom s0
         \<or> s1 = downloadTilesForGeoJSON geo name geojson minZoom maxZoom s0
         \<or> (failedDownloads s0 \<noteq> [] \<and> s1 = snd (retryFailedDownloads s0))"
    and "s = run cfg evs s1"
  shows "completed (stats s) + inProgress (stats s) \<le> totalTiles (stats s)
    \<and> (\<forall>st \<in> set (drop (length (notified s0)) (notified s)).
          completed st + inProgress st \<le> totalTiles st)
    \<and> (idle s \<longrightarrow>
          inProgress (stats s) = 0
          \<and> completed (stats s) + int (length (rejected s) - length (rejected s0))
               = totalTiles (stats s))
    \<and> (idle s \<and> rejected s = rejected s0 \<longrightarrow>
          completed (stats s) + inProgress (stats s) = totalTiles (stats s))
    \<and> (getTileMapByName cfg name = Inr tm \<longrightarrow> rejected s = rejected s0)"
proof -
  have "accounted (length (rejected s0)) (length (notified s0)) s1"
    using assms(1,2) accounted_boundingBox accounted_geoJSON accounted_retry by blast
  then have a: "accounted (length (rejected s0)) (length (notified s0)) s"
    unfolding assms(3) by (rule accounted_run)
  have r: "rejected s = rejected s0" if tm: "getTileMapByName cfg name = Inr tm"
  proof -
    have known: "\<forall>t \<in> set (map (taskOf name) tiles). taskPath cfg t \<noteq> None" for tiles
      using taskPath_taskOf [OF tm] by simp
    have "unrejected cfg (rejected s0) s1"
      using assms(2)
    proof (elim disjE conjE)
      assume "s1 = downloadTilesForBoundingBox geo name bbox minZoom maxZoom s0"
      then show ?thesis
        using unrejected_start [OF assms(1) known]
        by (simp add: downloadTilesForBoundingBox_def Let_def)
    next
      assume "s1 = downloadTilesForGeoJSON geo name geojson minZoom maxZoom s0"
      then show ?thesis
        using unrejected_start [OF assms(1) known]
        by (simp add: downloadTilesForGeoJSON_def Let_def)
    next
      assume "failedDownloads s0 \<noteq> []" "s1 = snd (retryFailedDownloads s0)"
      then show ?thesis
        using assms(1)
        by (simp add: retryFailedDownloads_def Let_def resetStats_def setCalculated_def
            updateProgress_def enqueueAll_def getStats_def unrejected_def idle_def)
    qed
    then have "unrejected cfg (rejected s0) s"
      unfolding assms(3) by (rule unrejected_run)
    then show ?thesis by (simp add: unrejected_def)
  qed
  from a r show ?thesis
    by (auto simp: accounted_def okStats_def idle_def)
qed

theorem statistics_accounted_witness:
  "idle (setProgressCallback (newTileDownloader 5 {}))
   \<and> getTileMapByName demo_cfg ''OSM'' = Inr (hd (TileMaps demo_cfg))
   \<and> idle demo_watched
   \<and> rejected demo_watched = rejected (setProgressCallback (newTileDownloader 5 {}))
   \<and> notified demo_watched
       = [\<lparr>calculatedTiles = 1, downloadedTiles = 0, failedTiles = 0, skippedTiles = 0,
            inProgress = 0, totalTiles = 1\<rparr>,
          \<lparr>calculatedTiles = 1, downloadedTiles = 0, failedTiles = 1, skippedTiles = 0,
            inProgress = 0, totalTiles = 1\<rparr>]
   \<and> completed (stats demo_watched) + inProgress (stats demo_watched) = 1
   \<and> totalTiles (stats demo_watched) = 1"
proof -
  let ?s0 = "setProgressCallback (newTileDownloader 5 {})"
  have i: "idle ?s0"
    by (simp add: idle_def newTileDownloader_def setProgressCallback_def)
  have s: "downloadTilesForBoundingBox demo_geo ''OSM'' (0, 0, 0, 0) 0 0 ?s0
           = downloadTilesForBoundingBox demo_geo ''OSM'' (0, 0, 0, 0) 0 0 ?s0
         \<or> downloadTilesForBoundingBox demo_geo ''OSM'' (0, 0, 0, 0) 0 0 ?s0
           = downloadTilesForGeoJSON demo_geo ''OSM'' (Feature (0, 0, 0, 0)) 0 0 ?s0
         \<or> (failedDownloads ?s0 \<noteq> []
            \<and> downloadTilesForBoundingBox demo_geo ''OSM'' (0, 0, 0, 0) 0 0 ?s0
              = snd (retryFailedDownloads ?s0))"
    by simp
  have r: "demo_watched = run demo_cfg [Start 0, Settle 0 True, Settle 0 True, Settle 0 False]
      (downloadTilesForBoundingBox demo_geo ''OSM'' (0, 0, 0, 0) 0 0 ?s0)"
    by (simp add: demo_watched_def)
  have tm: "getTileMapByName demo_cfg ''OSM'' = Inr (hd (TileMaps demo_cfg))"
    by (simp add: getTileMapByName_def demo_cfg_def)
  have q: "idle demo_watched"
    by code_simp
  have n: "notified demo_watched
       = [\<lparr>calculatedTiles = 1, downloadedTiles = 0, failedTiles = 0, skippedTiles = 0,
            inProgress = 0, totalTiles = 1\<rparr>,
          \<lparr>calculatedTiles = 1, downloadedTiles = 0, failedTiles = 1, skippedTiles = 0,
            inProgress = 0, totalTiles = 1\<rparr>]"
    by code_simp
  have t: "totalTiles (stats demo_watched) = 1"
    by code_simp
  have j: "rejected demo_watched = rejected ?s0"
    using statistics_accounted [OF i s r, where tm = "hd (TileMaps demo_cfg)"] tm by blast
  have "completed (stats demo_watched) + inProgress (stats demo_watched)
      = totalTiles (stats demo_watched)"
    using statistics_accounted [OF i s r, where tm = "hd (TileMaps demo_cfg)"] q j by blast
  with t have c: "completed (stats demo_watched) + inProgress (stats demo_watched) = 1"
    by simp
  from i tm q j n c t show ?thesis
    by (intro conjI)
qed

text \<open>
  With a tile map that is not configured the only task is rejected before it is
  counted: the queue is drained, nothing is in progress, and the counters sum to 0
  while \<open>totalTiles\<close> is 1.
\<close>

theorem statistics_unknown_tile_map:
  "idle (run demo_cfg [Start 0] demo_unknown)
   \<and> inProgress (stats (run demo_cfg [Start 0] demo_unknown)) = 0
   \<and> downloadedTiles (stats (run demo_cfg [Start 0] demo_unknown)) = 0
   \<and> skippedTiles (stats (run demo_cfg [Start 0] demo_unknown)) = 0
   \<and> failedTiles (stats (run demo_cfg [Start 0] demo_unknown)) = 0
   \<and> totalTiles (stats (run demo_cfg [Start 0] demo_unknown)) = 1"
  by code_simp

section \<open>Downloads against a populated cache\<close>

lemma covered_next:
  assumes "covered cfg ts s"
    and "\<And>t. t \<in> set (queue s) \<or> t \<in> job_task ` set (pending s) \<or> t \<in> set (failedDownloads s)
          \<Longrightarrow> t \<in> set (queue s') \<or> t \<in> job_task ` set (pending s')
              \<or> t \<in> set (failedDownloads s') \<or> taskPath cfg t = None
              \<or> (\<exists>p. taskPath cfg t = Some p \<and> p \<in> files s')"
    and "files s \<subseteq> files s'"
    and "\<And>j. j \<in> set (pending s') \<Longrightarrow> taskPath cfg (job_task j) = Some (job_path j)"
    and "int (length (failedDownloads s')) = failedTiles (stats s')"
  shows "covered cfg ts s'"
  unfolding covered_def
proof (intro conjI ballI)
  fix t assume "t \<in> set ts"
  with assms(1) have "t \<in> set (queue s) \<or> t \<in> job_task ` set (pending s)
      \<or> t \<in> set (failedDownloads s)
      \<or> taskPath cfg t = None \<or> (\<exists>p. taskPath cfg t = Some p \<and> p \<in> files s)"
    by (simp add: covered_def)
  then consider
      (a) "t \<in> set (queue s) \<or> t \<in> job_task ` set (pending s) \<or> t \<in> set (failedDownloads s)"
    | (b) "taskPath cfg t = None"
    | (c) p where "taskPath cfg t = Some p" "p \<in> files s"
    by auto
  then show "t \<in> set (queue s') \<or> t \<in> job_task ` set (pending s')
      \<or> t \<in> set (failedDownloads s')
      \<or> taskPath cfg t = None \<or> (\<exists>p. taskPath cfg t = Some p \<and> p \<in> files s')"
  proof cases
    case a
    then show ?thesis by (rule assms(2))
  next
    case b
    then show ?thesis by simp
  next
    case c
    with assms(3) have "p \<in> files s'" by auto
    with c(1) show ?thesis by simp
  qed
next
  fix j assume "j \<in> set (pending s')"
  then show "taskPath cfg (job_task j) = Some (job_path j)" by (rule assms(4))
next
  show "int (length (failedDownloads s')) = failedTiles (stats s')" by (rule assms(5))
qed

lemma set_remove_nth:
  "i < length xs \<Longrightarrow> set xs = insert (xs ! i) (set (take i xs @ drop (Suc i) xs))"
  using id_take_nth_drop [of i xs] by (metis Un_insert_right list.simps(15) set_append)

lemma fields_updateProgress [simp]:
  "stats (updateProgress s) = stats s" "failedDownloads (updateProgress s) = failedDownloads s"
  "queue (updateProgress s) = queue s" "pending (updateProgress s) = pending s"
  "files (updateProgress s) = files s" "requests (updateProgress s) = requests s"
  "rejected (updateProgress s) = rejected s" "concurrency (updateProgress s) = concurrency s"
  by (simp_all add: updateProgress_def)

lemma covered_finish:
  assumes "covered cfg ts s" "i < length (pending s)"
    and "queue s' = queue s" "pending s' = take i (pending s) @ drop (Suc i) (pending s)"
    and "files s \<subseteq> files s'"
    and "job_task (pending s ! i) \<in> set (failedDownloads s') \<or> job_path (pending s ! i) \<in> files s'"
    and "set (failedDownloads s) \<subseteq> set (failedDownloads s')"
    and "int (length (failedDownloads s')) = failedTiles (stats s')"
  shows "covered cfg ts s'"
proof (rule covered_next [OF assms(1)])
  have jp: "taskPath cfg (job_task j) = Some (job_path j)" if "j \<in> set (pending s)" for j
    using assms(1) that by (simp add: covered_def)
  fix t
  assume t: "t \<in> set (queue s) \<or> t \<in> job_task ` set (pending s) \<or> t \<in> set (failedDownloads s)"
  show "t \<in> set (queue s') \<or> t \<in> job_task ` set (pending s')
      \<or> t \<in> set (failedDownloads s') \<or> taskPath cfg t = None
      \<or> (\<exists>p. taskPath cfg t = Some p \<and> p \<in> files s')"
  proof (cases "t \<in> job_task ` set (pending s)")
    case False
    with t assms(3,7) show ?thesis by auto
  next
    case True
    then obtain j where j: "j \<in> set (pending s)" "t = job_task j" by auto
    show ?thesis
    proof (cases "j \<in> set (pending s')")
      case True
      with j show ?thesis by auto
    next
      case False
      with j(1) assms(4) set_remove_nth [OF assms(2)] have "j = pending s ! i" by auto
      with j(2) assms(6) jp [OF j(1)] show ?thesis by auto
    qed
  qed
next
  show "files s \<subseteq> files s'" by (rule assms(5))
next
  fix j assume "j \<in> set (pending s')"
  with assms(4) have "j \<in> set (pending s)" by (auto dest: in_set_takeD in_set_dropD)
  with assms(1) show "taskPath cfg (job_task j) = Some (job_path j)"
    by (simp add: covered_def)
next
  show "int (length (failedDownloads s')) = failedTiles (stats s')" by (rule assms(8))
qed

lemma covered_tileSkipped:
  assumes "covered cfg ts s" "i < length (pending s)" "job_path (pending s ! i) \<in> files s"
  shows "covered cfg ts (tileSkipped i s)"
  using assms
  by (intro covered_finish [OF assms(1,2)])
     (simp_all add: tileSkipped_def removeJob_def covered_def)

lemma covered_tileDownloaded:
  assumes "covered cfg ts s" "i < length (pending s)"
  shows "covered cfg ts (tileDownloaded i (s\<lparr>files := insert (job_path (pending s ! i)) (files s)\<rparr>))"
  using assms
  by (intro covered_finish [OF assms(1,2)])
     (auto simp: tileDownloaded_def removeJob_def covered_def)

lemma covered_tileFailed:
  assumes "covered cfg ts s" "i < length (pending s)"
  shows "covered cfg ts (tileFailed i s)"
  using assms
  by (intro covered_finish [OF assms(1,2)])
     (auto simp: tileFailed_def removeJob_def covered_def)

lemma covered_setPhase:
  assumes "covered cfg ts s" "i < length (pending s)"
  shows "covered cfg ts ((setPhase i ph s)\<lparr>requests := rq\<rparr>)"
proof (rule covered_next [OF assms(1)])
  let ?s' = "(setPhase i ph s)\<lparr>requests := rq\<rparr>"
  have m: "map job_task (pending ?s') = map job_task (pending s)"
    using assms(2) by (simp add: setPhase_def map_update list_update_same_conv)
  then have im: "job_task ` set (pending ?s') = job_task ` set (pending s)"
    by (metis set_map)
  fix t
  assume "t \<in> set (queue s) \<or> t \<in> job_task ` set (pending s) \<or> t \<in> set (failedDownloads s)"
  then show "t \<in> set (queue ?s') \<or> t \<in> job_task ` set (pending ?s')
      \<or> t \<in> set (failedDownloads ?s') \<or> taskPath cfg t = None
      \<or> (\<exists>p. taskPath cfg t = Some p \<and> p \<in> files ?s')"
    unfolding im by (auto simp: setPhase_def)
next
  show "files s \<subseteq> files ((setPhase i ph s)\<lparr>requests := rq\<rparr>)"
    by (simp add: setPhase_def)
next
  fix j assume "j \<in> set (pending ((setPhase i ph s)\<lparr>requests := rq\<rparr>))"
  then have "j \<in> insert ((pending s ! i)\<lparr>job_phase := ph\<rparr>) (set (pending s))"
    using set_update_subset_insert [of "pending s" i] by (auto simp: setPhase_def)
  moreover have "taskPath cfg (job_task (pending s ! i)) = Some (job_path (pending s ! i))"
    using assms(1,2) by (simp add: covered_def)
  ultimately show "taskPath cfg (job_task j) = Some (job_path j)"
    using assms(1) by (auto simp: covered_def)
next
  show "int (length (failedDownloads ((setPhase i ph s)\<lparr>requests := rq\<rparr>)))
      = failedTiles (stats ((setPhase i ph s)\<lparr>requests := rq\<rparr>))"
    using assms(1) by (simp add: setPhase_def covered_def)
qed

lemma covered_setPhase':
  assumes "covered cfg ts s" "i < length (pending s)"
  shows "covered cfg ts (setPhase i ph s)"
  using covered_setPhase [OF assms, where ph = ph and rq = "requests s"]
  by (simp add: setPhase_def)

lemma covered_resume:
  assumes "covered cfg ts s" "i < length (pending s)"
  shows "covered cfg ts (downloadTile_resume i ok s)"
proof (cases "job_phase (pending s ! i)")
  case PathExists
  then show ?thesis
    using covered_tileSkipped [OF assms] covered_setPhase' [OF assms]
    by (simp add: downloadTile_resume_def Let_def)
next
  case EnsureDir
  then show ?thesis
    using covered_tileFailed [OF assms] covered_setPhase [OF assms]
    by (simp add: downloadTile_resume_def Let_def)
next
  case HttpGet
  then show ?thesis
    using covered_tileFailed [OF assms] covered_setPhase' [OF assms]
    by (simp add: downloadTile_resume_def Let_def)
next
  case WriteFile
  then show ?thesis
    using covered_tileFailed [OF assms] covered_tileDownloaded [OF assms]
    by (simp add: downloadTile_resume_def Let_def)
qed

lemma covered_start_task:
  assumes "covered cfg ts s" "queue s = t # q"
  shows "covered cfg ts
           (case downloadTile cfg rnd t (s\<lparr>queue := q\<rparr>) of
              Inl e \<Rightarrow> s\<lparr>queue := q, rejected := rejected s @ [e]\<rparr>
            | Inr s' \<Rightarrow> s')"
proof (cases "getTileMapByName cfg (task_name t)")
  case (Inl err)
  then have tp: "taskPath cfg t = None"
    by (simp add: taskPath_def)
  have "covered cfg ts (s\<lparr>queue := q, rejected := rejected s @ [err]\<rparr>)"
  proof (rule covered_next [OF assms(1)])
    fix t'
    assume "t' \<in> set (queue s) \<or> t' \<in> job_task ` set (pending s) \<or> t' \<in> set (failedDownloads s)"
    then show "t' \<in> set (queue (s\<lparr>queue := q, rejected := rejected s @ [err]\<rparr>))
        \<or> t' \<in> job_task ` set (pending (s\<lparr>queue := q, rejected := rejected s @ [err]\<rparr>))
        \<or> t' \<in> set (failedDownloads (s\<lparr>queue := q, rejected := rejected s @ [err]\<rparr>))
        \<or> taskPath cfg t' = None
        \<or> (\<exists>p. taskPath cfg t' = Some p
              \<and> p \<in> files (s\<lparr>queue := q, rejected := rejected s @ [err]\<rparr>))"
      using assms(2) tp by auto
  qed (use assms(1) in \<open>simp_all add: covered_def\<close>)
  with Inl show ?thesis
    by (simp add: downloadTile_def)
next
  case (Inr tm)
  let ?p = "generateTilePath cfg (task_name t) (task_x t) (task_y t) (task_z t) (Format tm)"
  let ?j = "\<lparr>job_task = t, job_url = generateTileUrl tm (task_x t) (task_y t) (task_z t) rnd,
             job_path = ?p, job_phase = PathExists\<rparr>"
  let ?s' = "s\<lparr>queue := q, stats := (stats s)\<lparr>inProgress := inProgress (stats s) + 1\<rparr>,
               pending := pending s @ [?j]\<rparr>"
  from Inr have tp: "taskPath cfg t = Some ?p"
    by (simp add: taskPath_def)
  have "covered cfg ts ?s'"
  proof (rule covered_next [OF assms(1)])
    fix t'
    assume "t' \<in> set (queue s) \<or> t' \<in> job_task ` set (pending s) \<or> t' \<in> set (failedDownloads s)"
    then show "t' \<in> set (queue ?s') \<or> t' \<in> job_task ` set (pending ?s')
        \<or> t' \<in> set (failedDownloads ?s') \<or> taskPath cfg t' = None
        \<or> (\<exists>p. taskPath cfg t' = Some p \<and> p \<in> files ?s')"
      using assms(2) by auto
  next
    fix j assume "j \<in> set (pending ?s')"
    then show "taskPath cfg (job_task j) = Some (job_path j)"
      using assms(1) tp by (auto simp: covered_def)
  qed (use assms(1) in \<open>simp_all add: covered_def\<close>)
  with Inr show ?thesis
    by (simp add: downloadTile_def Let_def)
qed

lemma covered_step:
  assumes "covered cfg ts s"
  shows "covered cfg ts (step cfg e s)"
proof (cases e)
  case (Start rnd)
  show ?thesis
  proof (cases "queue s")
    case Nil
    with Start assms show ?thesis by simp
  next
    case (Cons t q)
    with Start assms covered_start_task [OF assms Cons, of rnd] show ?thesis
      by simp
  qed
next
  case (Settle i ok)
  with assms covered_resume [OF assms] show ?thesis by simp
qed

lemma covered_run: "covered cfg ts s \<Longrightarrow> covered cfg ts (run cfg evs s)"
  unfolding run_def by (induction evs arbitrary: s) (simp_all add: covered_step)

lemma covered_start:
  assumes "idle s0"
  shows "covered cfg ts (enqueueAll ts (updateProgress (setCalculated n (resetStats s0))))"
  using assms
  by (simp add: covered_def idle_def enqueueAll_def setCalculated_def resetStats_def
      zeroStats_def)

lemma covered_idle:
  assumes "covered cfg ts s" "idle s" "failedTiles (stats s) = 0"
    and "t \<in> set ts" "taskPath cfg t \<noteq> None"
  shows "\<exists>p. taskPath cfg t = Some p \<and> p \<in> files s"
  using assms by (auto simp: covered_def idle_def)

lemma cachedRun_step:
  assumes "cachedRun cfg F Q R s"
  shows "cachedRun cfg F Q R (step cfg e s)"
proof (cases e)
  case (Start rnd)
  show ?thesis
  proof (cases "queue s")
    case Nil
    with Start assms show ?thesis by simp
  next
    case (Cons t q)
    show ?thesis
    proof (cases "length (pending s) < concurrency s")
      case False
      with Start Cons assms show ?thesis by simp
    next
      case True
      from assms Cons obtain p where p: "taskPath cfg t = Some p" "p \<in> F"
        by (auto simp: cachedRun_def)
      then obtain tm where tm: "getTileMapByName cfg (task_name t) = Inr tm"
        and pp: "p = generateTilePath cfg (task_name t) (task_x t) (task_y t) (task_z t) (Format tm)"
        by (auto simp: taskPath_def split: sum.splits)
      have "step cfg e s = s\<lparr>queue := q,
          stats := (stats s)\<lparr>inProgress := inProgress (stats s) + 1\<rparr>,
          pending := pending s @ [\<lparr>job_task = t,
            job_url = generateTileUrl tm (task_x t) (task_y t) (task_z t) rnd,
            job_path = p, job_phase = PathExists\<rparr>]\<rparr>"
        using Start Cons True tm pp by (simp add: downloadTile_def Let_def)
      then show ?thesis
        using assms Cons p(2) by (auto simp: cachedRun_def)
    qed
  qed
next
  case (Settle i ok)
  show ?thesis
  proof (cases "i < length (pending s)")
    case False
    with Settle assms show ?thesis by simp
  next
    case True
    then have "pending s ! i \<in> set (pending s)" by simp
    with assms have ph: "job_phase (pending s ! i) = PathExists"
      and pa: "job_path (pending s ! i) \<in> files s"
      by (auto simp: cachedRun_def)
    then have "step cfg e s = tileSkipped i s"
      using Settle True by (simp add: downloadTile_resume_def Let_def)
    moreover have "cachedRun cfg F Q R (tileSkipped i s)"
      using assms
      by (auto simp: cachedRun_def tileSkipped_def removeJob_def
          dest: in_set_takeD in_set_dropD)
    ultimately show ?thesis by simp
  qed
qed

lemma cachedRun_run: "cachedRun cfg F Q R s \<Longrightarrow> cachedRun cfg F Q R (run cfg evs s)"
  unfolding run_def by (induction evs arbitrary: s) (simp_all add: cachedRun_step)

lemma cachedRun_start:
  assumes "idle s1" "\<forall>t \<in> set ts. \<exists>p. taskPath cfg t = Some p \<and> p \<in> files s1"
  shows "cachedRun cfg (files s1) (requests s1) (rejected s1)
           (enqueueAll ts (updateProgress (setCalculated n (resetStats s1))))"
  using assms
  by (simp add: cachedRun_def idle_def enqueueAll_def setCalculated_def resetStats_def
      zeroStats_def)

lemma two_runs:
  assumes "idle s0" "\<forall>t \<in> set ts. taskPath cfg t \<noteq> None"
    and "s1 = run cfg evs1 (enqueueAll ts (updateProgress (setCalculated (length ts) (resetStats s0))))"
    and "idle s1" "failedTiles (stats s1) = 0"
    and "s2 = run cfg evs2 (enqueueAll ts (updateProgress (setCalculated (length ts) (resetStats s1))))"
  shows "downloadedTiles (stats s2) = 0 \<and> failedTiles (stats s2) = 0
    \<and> requests s2 = requests s1 \<and> files s2 = files s1
    \<and> (idle s2 \<longrightarrow> skippedTiles (stats s2) = totalTiles (stats s2))"
proof -
  have "covered cfg ts s1"
    unfolding assms(3) by (rule covered_run) (rule covered_start [OF assms(1)])
  then have "\<forall>t \<in> set ts. \<exists>p. taskPath cfg t = Some p \<and> p \<in> files s1"
    using covered_idle [OF _ assms(4,5)] assms(2) by blast
  then have c: "cachedRun cfg (files s1) (requests s1) (rejected s1) s2"
    unfolding assms(6) by (intro cachedRun_run cachedRun_start assms(4))
  have a: "accounted (length (rejected s1)) (length (notified s1)) s2"
    unfolding assms(6) by (intro accounted_run accounted_start assms(4))
  from c have 1: "downloadedTiles (stats s2) = 0" "failedTiles (stats s2) = 0"
    "requests s2 = requests s1" "files s2 = files s1" "rejected s2 = rejected s1"
    by (simp_all add: cachedRun_def)
  have "skippedTiles (stats s2) = totalTiles (stats s2)" if "idle s2"
    using a that 1 by (simp add: accounted_def idle_def completed_def)
  with 1 show ?thesis by simp
qed

text \<open>
  C4. A task that finds its cache file increments \<open>skippedTiles\<close> and nothing else but
  \<open>inProgress\<close>: no request is sent and no file written. Consequently, when a download
  of a configured tile map has ended without failed tiles, running the same download
  again downloads nothing, requests nothing, writes nothing, and ends with
  \<open>skippedTiles = totalTiles\<close>.
\<close>

theorem cached_tiles_are_skipped:
  "(i < length (pending s) \<and> job_phase (pending s ! i) = PathExists
      \<and> job_path (pending s ! i) \<in> files s \<longrightarrow>
        skippedTiles (stats (step cfg (Settle i ok) s)) = skippedTiles (stats s) + 1
        \<and> downloadedTiles (stats (step cfg (Settle i ok) s)) = downloadedTiles (stats s)
        \<and> failedTiles (stats (step cfg (Settle i ok) s)) = failedTiles (stats s)
        \<and> inProgress (stats (step cfg (Settle i ok) s)) = inProgress (stats s) - 1
        \<and> requests (step cfg (Settle i ok) s) = requests s
        \<and> files (step cfg (Settle i ok) s) = files s
        \<and> pending (step cfg (Settle i ok) s) = take i (pending s) @ drop (Suc i) (pending s))
   \<and> (idle s0 \<and> getTileMapByName cfg name = Inr tm
       \<and> (s1 = run cfg evs1 (downloadTilesForBoundingBox geo name bbox minZoom maxZoom s0)
            \<and> s2 = run cfg evs2 (downloadTilesForBoundingBox geo name bbox minZoom maxZoom s1)
          \<or> s1 = run cfg evs1 (downloadTilesForGeoJSON geo name geojson minZoom maxZoom s0)
            \<and> s2 = run cfg evs2 (downloadTilesForGeoJSON geo name geojson minZoom maxZoom s1))
       \<and> idle s1 \<and> failedTiles (stats s1) = 0 \<longrightarrow>
         downloadedTiles (stats s2) = 0 \<and> failedTiles (stats s2) = 0
         \<and> requests s2 = requests s1 \<and> files s2 = files s1
         \<and> (idle s2 \<longrightarrow> skippedTiles (stats s2) = totalTiles (stats s2)))"
proof (rule conjI; rule impI)
  assume h: "idle s0 \<and> getTileMapByName cfg name = Inr tm
       \<and> (s1 = run cfg evs1 (downloadTilesForBoundingBox geo name bbox minZoom maxZoom s0)
            \<and> s2 = run cfg evs2 (downloadTilesForBoundingBox geo name bbox minZoom maxZoom s1)
          \<or> s1 = run cfg evs1 (downloadTilesForGeoJSON geo name geojson minZoom maxZoom s0)
            \<and> s2 = run cfg evs2 (downloadTilesForGeoJSON geo name geojson minZoom maxZoom s1))
       \<and> idle s1 \<and> failedTiles (stats s1) = 0"
  then have i0: "idle s0" and tm: "getTileMapByName cfg name = Inr tm"
    and i1: "idle s1" and f1: "failedTiles (stats s1) = 0"
    by simp_all
  have known: "\<forall>t \<in> set (map (taskOf name) tiles). taskPath cfg t \<noteq> None" for tiles
    using taskPath_taskOf [OF tm] by simp
  from h consider
      (bbox) "s1 = run cfg evs1 (downloadTilesForBoundingBox geo name bbox minZoom maxZoom s0)"
        "s2 = run cfg evs2 (downloadTilesForBoundingBox geo name bbox minZoom maxZoom s1)"
    | (geojson) "s1 = run cfg evs1 (downloadTilesForGeoJSON geo name geojson minZoom maxZoom s0)"
        "s2 = run cfg evs2 (downloadTilesForGeoJSON geo name geojson minZoom maxZoom s1)"
    by auto
  then show "downloadedTiles (stats s2) = 0 \<and> failedTiles (stats s2) = 0
         \<and> requests s2 = requests s1 \<and> files s2 = files s1
         \<and> (idle s2 \<longrightarrow> skippedTiles (stats s2) = totalTiles (stats s2))"
  proof cases
    case bbox
    let ?ts = "map (taskOf name) (calculateTilesForBoundingBox geo bbox minZoom maxZoom)"
    show ?thesis
      by (rule two_runs [OF i0 known [of "calculateTilesForBoundingBox geo bbox minZoom maxZoom"] _ i1 f1,
            where ?evs1.0 = evs1 and ?evs2.0 = evs2])
         (simp_all add: bbox downloadTilesForBoundingBox_def Let_def)
  next
    case geojson
    show ?thesis
      by (rule two_runs [OF i0 known [of "calculateTilesForGeoJSON geo geojson minZoom maxZoom"] _ i1 f1,
            where ?evs1.0 = evs1 and ?evs2.0 = evs2])
         (simp_all add: geojson downloadTilesForGeoJSON_def Let_def)
  qed
qed (simp add: downloadTile_resume_def Let_def tileSkipped_def removeJob_def)

theorem cached_tiles_are_skipped_witness:
  "0 < length (pending (run demo_cfg [Start 0] demo_again))
   \<and> job_phase (pending (run demo_cfg [Start 0] demo_again) ! 0) = PathExists
   \<and> job_path (pending (run demo_cfg [Start 0] demo_again) ! 0)
        \<in> files (run demo_cfg [Start 0] demo_again)
   \<and> skippedTiles (stats (step demo_cfg (Settle 0 True) (run demo_cfg [Start 0] demo_again))) = 1
   \<and> requests (step demo_cfg (Settle 0 True) (run demo_cfg [Start 0] demo_again))
        = requests (run demo_cfg [Start 0] demo_again)
   \<and> idle (newTileDownloader 5 {})
   \<and> getTileMapByName demo_cfg ''OSM'' = Inr (hd (TileMaps demo_cfg))
   \<and> idle demo_downloaded \<and> failedTiles (stats demo_downloaded) = 0
   \<and> downloadedTiles (stats demo_downloaded) = 1
   \<and> idle (run demo_cfg [Start 0, Settle 0 True] demo_again)
   \<and> downloadedTiles (stats (run demo_cfg [Start 0, Settle 0 True] demo_again)) = 0
   \<and> skippedTiles (stats (run demo_cfg [Start 0, Settle 0 True] demo_again)) = 1
   \<and> totalTiles (stats (run demo_cfg [Start 0, Settle 0 True] demo_again)) = 1"
proof -
  let ?s = "run demo_cfg [Start 0] demo_again"
  let ?s2 = "run demo_cfg [Start 0, Settle 0 True] demo_again"
  have a: "0 < length (pending ?s)" by code_simp
  have b: "job_phase (pending ?s ! 0) = PathExists" by code_simp
  have c: "job_path (pending ?s ! 0) \<in> files ?s" by code_simp
  have d: "skippedTiles (stats ?s) = 0" by code_simp
  have i0: "idle (newTileDownloader 5 {})" by (simp add: idle_def newTileDownloader_def)
  have tm: "getTileMapByName demo_cfg ''OSM'' = Inr (hd (TileMaps demo_cfg))"
    by (simp add: getTileMapByName_def demo_cfg_def)
  have i1: "idle demo_downloaded" by code_simp
  have f1: "failedTiles (stats demo_downloaded) = 0" by code_simp
  have d1: "downloadedTiles (stats demo_downloaded) = 1" by code_simp
  have i2: "idle ?s2" by code_simp
  have t2: "totalTiles (stats ?s2) = 1" by code_simp
  have r: "demo_downloaded = run demo_cfg [Start 0, Settle 0 True, Settle 0 True, Settle 0 True, Settle 0 True]
        (downloadTilesForBoundingBox demo_geo ''OSM'' (0, 0, 0, 0) 0 0 (newTileDownloader 5 {}))
      \<and> ?s2 = run demo_cfg [Start 0, Settle 0 True]
        (downloadTilesForBoundingBox demo_geo ''OSM'' (0, 0, 0, 0) 0 0 demo_downloaded)"
    by (simp add: demo_downloaded_def demo_start_def demo_again_def)
  show ?thesis
    using cached_tiles_are_skipped [where i = 0 and s = ?s and cfg = demo_cfg and ok = True
        and ?s0.0 = "newTileDownloader 5 {}" and name = "''OSM''"
        and tm = "hd (TileMaps demo_cfg)" and ?s1.0 = demo_downloaded
        and ?evs1.0 = "[Start 0, Settle 0 True, Settle 0 True, Settle 0 True, Settle 0 True]"
        and geo = demo_geo and bbox = "(0, 0, 0, 0)" and minZoom = 0 and maxZoom = 0
        and ?s2.0 = ?s2 and ?evs2.0 = "[Start 0, Settle 0 True]"]
      a b c d i0 tm i1 f1 d1 i2 t2 r
    by simp
qed

end
